theory Spec2Isabelle
  imports Main
begin

section \<open>Python strings\<close>

text \<open>
  A \<^typ>\<open>char\<close> stands for the code point of its number, 0 to 255: the texts are the
  strings of Python over the first 256 code points of Unicode. The functions below are
  the methods of Python's \<open>str\<close> that \<open>node.py\<close> calls, with the tables of Unicode on
  that range.
\<close>

text \<open>\<open>str.isspace\<close> on one character, which is also what \<open>strip()\<close>, \<open>split()\<close>
  and the class \<open>\s\<close> take for white space: tab, line feed, vertical tab, form feed,
  carriage return (9 to 13), the separators 28 to 31, the space (32), the next-line
  control (133) and the no-break space (160).\<close>

definition isspace :: "char \<Rightarrow> bool" where
  "isspace c =
     (let n = (of_char c :: nat)
      in (9 \<le> n \<and> n \<le> 13) \<or> (28 \<le> n \<and> n \<le> 32) \<or> n = 133 \<or> n = 160)"

text \<open>\<open>str.lower\<close> on one character, and on a string: the capital letters are
  \<open>A\<close> to \<open>Z\<close> and the code points 192 to 214 and 216 to 222, each 32 below its small
  letter. Under \<open>IGNORECASE\<close> two characters of this range match exactly when their
  lower-case forms are equal.\<close>

definition lower_char :: "char \<Rightarrow> char" where
  "lower_char c =
     (let n = (of_char c :: nat)
      in if (65 \<le> n \<and> n \<le> 90) \<or> (192 \<le> n \<and> n \<le> 214) \<or> (216 \<le> n \<and> n \<le> 222)
         then char_of (n + 32) else c)"

definition lower :: "string \<Rightarrow> string" where
  "lower s = map lower_char s"

text \<open>The class \<open>\w\<close> of the module \<open>re\<close> for a pattern of type \<open>str\<close>: the
  alphanumeric characters of Unicode and the underscore. Below 256 these are the digits,
  the letters \<open>A\<close> to \<open>Z\<close> and \<open>a\<close> to \<open>z\<close>, the underscore (95), the ordinal
  indicators (170, 186), the superscript digits (178, 179, 185), the micro sign (181), the
  fractions (188 to 190) and the letters from 192 on, without the multiplication and the
  division sign (215, 247).\<close>

definition is_word_char :: "char \<Rightarrow> bool" where
  "is_word_char c =
     (let n = (of_char c :: nat)
      in (48 \<le> n \<and> n \<le> 57) \<or> (65 \<le> n \<and> n \<le> 90) \<or> n = 95 \<or> (97 \<le> n \<and> n \<le> 122)
         \<or> n = 170 \<or> n = 178 \<or> n = 179 \<or> n = 181 \<or> n = 185 \<or> n = 186
         \<or> (188 \<le> n \<and> n \<le> 190) \<or> (192 \<le> n \<and> n \<le> 214)
         \<or> (216 \<le> n \<and> n \<le> 246) \<or> (248 \<le> n \<and> n \<le> 255))"

text \<open>\<open>s.strip()\<close>, \<open>s.startswith(p)\<close>, \<open>s.endswith(p)\<close>.\<close>

definition strip :: "string \<Rightarrow> string" where
  "strip s = rev (dropWhile isspace (rev (dropWhile isspace s)))"

definition startswith :: "string \<Rightarrow> string \<Rightarrow> bool" where
  "startswith s p = (take (length p) s = p)"

definition endswith :: "string \<Rightarrow> string \<Rightarrow> bool" where
  "endswith s p = (length p \<le> length s \<and> drop (length s - length p) s = p)"

text \<open>\<open>s.split(sep)\<close> for a separator of one character: the pieces between the
  separators, empty pieces kept, so that a string without the separator gives one piece.\<close>

fun split_on :: "char \<Rightarrow> string \<Rightarrow> string list" where
  "split_on sep [] = [[]]"
| "split_on sep (c # cs) =
     (if c = sep then [] # split_on sep cs
      else (case split_on sep cs of
              [] \<Rightarrow> [[c]]
            | p # ps \<Rightarrow> (c # p) # ps))"

text \<open>\<open>s.split()\<close> with no separator: the maximal runs of characters that are not
  white space. \<open>cur\<close> holds the run being read, last character first.\<close>

fun split_ws_from :: "string \<Rightarrow> string \<Rightarrow> string list" where
  "split_ws_from cur [] = (if cur = [] then [] else [rev cur])"
| "split_ws_from cur (c # cs) =
     (if isspace c
      then (if cur = [] then split_ws_from [] cs else rev cur # split_ws_from [] cs)
      else split_ws_from (c # cur) cs)"

definition split_ws :: "string \<Rightarrow> string list" where
  "split_ws s = split_ws_from [] s"

section \<open>The regular expressions of the module \<open>re\<close> that the source uses\<close>

text \<open>
  The source uses literals, \<open>^\<close>, \<open>\b\<close>, \<open>\s*\<close>, a look-behind for one character
  of a set, a greedy \<open>+\<close> on one character, sequence and alternation. A match of a
  pattern in \<open>s\<close> from position \<open>i\<close> is the list of the positions where it can end, in
  the order in which the backtracking matcher tries them (the first alternative first, the
  longest repetition first): the head is the match \<open>re\<close> reports. Literals are compared
  after lowering both sides when the flag \<open>IGNORECASE\<close> is set.
\<close>

datatype cclass = Whitespace | One_of string

datatype regex =
    Lit string
  | Bol
  | Word_boundary
  | Behind cclass
  | Star cclass
  | Plus cclass
  | Seq "regex list"
  | Alt "regex list"

fun in_class :: "cclass \<Rightarrow> char \<Rightarrow> bool" where
  "in_class Whitespace c = isspace c"
| "in_class (One_of cs) c = (c \<in> set cs)"

text \<open>\<open>\b\<close> at position \<open>i\<close>: exactly one of the characters before and after the
  position is a word character; outside the string there is none.\<close>

definition word_before :: "string \<Rightarrow> nat \<Rightarrow> bool" where
  "word_before s i = (0 < i \<and> i \<le> length s \<and> is_word_char (s ! (i - 1)))"

definition word_after :: "string \<Rightarrow> nat \<Rightarrow> bool" where
  "word_after s i = (i < length s \<and> is_word_char (s ! i))"

definition at_boundary :: "string \<Rightarrow> nat \<Rightarrow> bool" where
  "at_boundary s i = (word_before s i \<noteq> word_after s i)"

definition run_length :: "cclass \<Rightarrow> string \<Rightarrow> nat \<Rightarrow> nat" where
  "run_length cl s i = length (takeWhile (in_class cl) (drop i s))"

fun rmatch :: "bool \<Rightarrow> regex \<Rightarrow> string \<Rightarrow> nat \<Rightarrow> nat list" where
  "rmatch ic (Lit w) s i =
     (if (if ic then lower (take (length w) (drop i s)) = lower w
          else take (length w) (drop i s) = w)
      then [i + length w] else [])"
| "rmatch ic Bol s i = (if i = 0 then [i] else [])"
| "rmatch ic Word_boundary s i = (if at_boundary s i then [i] else [])"
| "rmatch ic (Behind cl) s i =
     (if 0 < i \<and> i \<le> length s \<and> in_class cl (s ! (i - 1)) then [i] else [])"
| "rmatch ic (Star cl) s i = rev [i ..< Suc (i + run_length cl s i)]"
| "rmatch ic (Plus cl) s i = rev [Suc i ..< Suc (i + run_length cl s i)]"
| "rmatch ic (Seq []) s i = [i]"
| "rmatch ic (Seq (r # rs)) s i = concat (map (rmatch ic (Seq rs) s) (rmatch ic r s i))"
| "rmatch ic (Alt []) s i = []"
| "rmatch ic (Alt (r # rs)) s i = rmatch ic r s i @ rmatch ic (Alt rs) s i"

text \<open>\<open>pattern.match(s)\<close> and \<open>pattern.search(s)\<close>, as the truth value of the
  match object they return: a match from position 0, a match from some position.\<close>

definition re_match :: "bool \<Rightarrow> regex \<Rightarrow> string \<Rightarrow> bool" where
  "re_match ic r s = (rmatch ic r s 0 \<noteq> [])"

definition re_search :: "bool \<Rightarrow> regex \<Rightarrow> string \<Rightarrow> bool" where
  "re_search ic r s = list_ex (\<lambda>i. rmatch ic r s i \<noteq> []) [0 ..< Suc (length s)]"

text \<open>
  \<open>re.split(pattern, s)\<close>: the scan looks for the leftmost match from \<open>pos\<close> on; the
  piece from \<open>start\<close> to the match is cut off and the scan goes on behind the match.
  The only pattern the source splits with cannot match the empty string; a match that
  ends where it began is passed over as no match.
\<close>

function re_split_from :: "regex \<Rightarrow> string \<Rightarrow> nat \<Rightarrow> nat \<Rightarrow> string list" where
  "re_split_from r s start pos =
     (if length s < pos then [drop start s]
      else (case rmatch False r s pos of
              [] \<Rightarrow> re_split_from r s start (Suc pos)
            | e # _ \<Rightarrow>
                if pos < e \<and> e \<le> length s
                then take (pos - start) (drop start s) # re_split_from r s e e
                else re_split_from r s start (Suc pos)))"
  by pat_completeness auto
termination
  by (relation "measure (\<lambda>(r, s, start, pos). Suc (length s) - pos)") auto

definition re_split :: "regex \<Rightarrow> string \<Rightarrow> string list" where
  "re_split r s = re_split_from r s 0 0"

section \<open>The role classifier: \<open>Node.is_probable_system_heuristic\<close>\<close>

text \<open>The exceptions the source can raise. \<open>Dangling\<close> is none of Python's: it is the
  answer of the model to an address outside the store, which no Python state holds.\<close>

datatype error = AttributeError | IndexError | ValueError | RecursionError | Dangling

text \<open>The class constants \<open>_IMPERATIVE_VERBS\<close> (a set, read by membership only) and
  \<open>_SYSTEM_PATTERNS\<close>, and the pattern \<open>_META_TAGS\<close> of the method.\<close>

definition IMPERATIVE_VERBS :: "string list" where
  "IMPERATIVE_VERBS =
     [''ensure'', ''sanitize'', ''never'', ''always'', ''make'', ''avoid'', ''validate'',
      ''check'', ''reject'', ''allow'', ''deny'', ''use'', ''require'', ''respond'']"

definition SYSTEM_PATTERNS :: "regex list" where
  "SYSTEM_PATTERNS =
     [Seq [Bol, Lit ''you are'', Word_boundary],
      Seq [Bol, Lit ''you should'', Word_boundary],
      Seq [Bol, Lit ''always'', Word_boundary],
      Seq [Bol, Lit ''never'', Word_boundary],
      Seq [Word_boundary, Lit ''make sure'', Word_boundary]]"

definition META_TAGS :: regex where
  "META_TAGS =
     Seq [Bol, Star Whitespace, Alt [Lit ''[SYSTEM]'', Lit ''##SYSTEM##'', Lit ''(system)'']]"

text \<open>\<open>stripped.split()[0].lower() if stripped else ""\<close>; indexing an empty list
  raises \<open>IndexError\<close>.\<close>

definition first_word :: "string \<Rightarrow> error + string" where
  "first_word stripped =
     (if stripped \<noteq> []
      then (case split_ws stripped of
              [] \<Rightarrow> Inl IndexError
            | w # _ \<Rightarrow> Inr (lower w))
      else Inr [])"

definition is_probable_system_heuristic :: "string \<Rightarrow> bool \<Rightarrow> error + bool" where
  "is_probable_system_heuristic text is_before_first_user =
     (let stripped = strip text in
      if re_search True (Alt SYSTEM_PATTERNS) (strip text) then Inr True
      else if re_match True META_TAGS stripped then Inr True
      else (case first_word stripped of
              Inl e \<Rightarrow> Inl e
            | Inr fw \<Rightarrow>
                if fw \<in> set IMPERATIVE_VERBS then Inr True
                else if (CHR 0x0A \<in> set text \<and> 1 \<le> count_list text (CHR 0x0A))
                        \<or> CHR '';'' \<in> set text
                then Inr True
                else if is_before_first_user
                then (if \<not> endswith stripped ''?''
                         \<and> \<not> (startswith (lower stripped) ''hi''
                              \<or> startswith (lower stripped) ''hello''
                              \<or> startswith (lower stripped) ''hey'')
                      then Inr True
                      else Inr False)
                else Inr False))"

section \<open>The classifier's rules, in the words of the specification\<close>

text \<open>
  The six heuristics as the specification words them, for comparison with the method
  above. \<open>phrase_at s i p\<close>: the phrase \<open>p\<close> stands in \<open>s\<close> at position \<open>i\<close>, letter case
  ignored, as whole words (no word character right before it or right behind it).
  \<open>begins_with s p\<close>: \<open>s\<close> has the prefix \<open>p\<close>, letter case ignored.
\<close>

datatype role = SYSTEM | USER

definition begins_with :: "string \<Rightarrow> string \<Rightarrow> bool" where
  "begins_with s p = (lower (take (length p) s) = lower p)"

definition phrase_at :: "string \<Rightarrow> nat \<Rightarrow> string \<Rightarrow> bool" where
  "phrase_at s i p =
     (lower (take (length p) (drop i s)) = lower p
      \<and> \<not> word_before s i \<and> \<not> word_after s (i + length p))"

definition first_token :: "string \<Rightarrow> string" where
  "first_token t = lower (takeWhile (\<lambda>c. \<not> isspace c) (dropWhile isspace t))"

text \<open>Rule 1 read literally, on prefixes and substrings of the text.\<close>

definition rule1_as_stated :: "string \<Rightarrow> bool" where
  "rule1_as_stated t =
     (begins_with t ''you are'' \<or> begins_with t ''you should''
      \<or> begins_with t ''always'' \<or> begins_with t ''never''
      \<or> list_ex (\<lambda>i. begins_with (drop i t) ''make sure'') [0 ..< length t])"

text \<open>Rule 1 on whole words of the trimmed text.\<close>

definition rule1 :: "string \<Rightarrow> bool" where
  "rule1 t =
     (let s = strip t in
      phrase_at s 0 ''you are'' \<or> phrase_at s 0 ''you should''
      \<or> phrase_at s 0 ''always'' \<or> phrase_at s 0 ''never''
      \<or> list_ex (\<lambda>i. phrase_at s i ''make sure'') [0 ..< length s])"

definition rule2 :: "string \<Rightarrow> bool" where
  "rule2 t =
     (let s = strip t in
      begins_with s ''[SYSTEM]:'' \<or> begins_with s ''##SYSTEM##'' \<or> begins_with s ''(system)'')"

definition rule3 :: "string \<Rightarrow> bool" where
  "rule3 t = (first_token t \<in> set IMPERATIVE_VERBS)"

definition rule4 :: "string \<Rightarrow> bool" where
  "rule4 t = (CHR 0x0A \<in> set t \<or> CHR '';'' \<in> set t)"

definition rule5 :: "string \<Rightarrow> bool \<Rightarrow> bool" where
  "rule5 t flag =
     (let s = strip t in
      flag \<and> \<not> endswith s ''?''
      \<and> \<not> begins_with s ''hi'' \<and> \<not> begins_with s ''hello'' \<and> \<not> begins_with s ''hey'')"

definition classify :: "string \<Rightarrow> bool \<Rightarrow> role" where
  "classify t flag =
     (if rule1 t then SYSTEM
      else if rule2 t then SYSTEM
      else if rule3 t then SYSTEM
      else if rule4 t then SYSTEM
      else if rule5 t flag then SYSTEM
      else USER)"

text \<open>A text whose trimmed form begins with the tag \<open>[SYSTEM]\<close> without the colon that
  the method's docstring and the specification write behind it.\<close>

definition bare_system_tag :: "string \<Rightarrow> bool" where
  "bare_system_tag t =
     (begins_with (strip t) ''[SYSTEM]'' \<and> \<not> begins_with (strip t) ''[SYSTEM]:'')"

section \<open>The segmentation engine: \<open>Node._segment_response\<close>\<close>

text \<open>
  Objects live in a store, a list of nodes; the address of a node is its position, and a
  new object is put at the end. A \<open>ResponseSegment\<close> belongs to one node only and is
  kept inside it; its \<open>children\<close> are addresses. The field is named \<open>seg_children\<close>
  here, the node's list \<open>children\<close>.
\<close>

type_synonym addr = nat

record response_segment =
  content :: string
  index :: int
  seg_children :: "addr list"

text \<open>The loop \<open>for idx, content in enumerate(segments)\<close>, appending one segment per
  round to \<open>self.response_segments\<close>.\<close>

fun segment_loop :: "int \<Rightarrow> string list \<Rightarrow> response_segment list \<Rightarrow> response_segment list" where
  "segment_loop idx [] response_segments = response_segments"
| "segment_loop idx (c # rest) response_segments =
     segment_loop (idx + 1) rest
       (response_segments @ [\<lparr>content = c, index = idx, seg_children = []\<rparr>])"

text \<open>The segments \<open>_segment_response\<close> computes from the response string:
  \<open>[seg.strip() for seg in self.response.split('\n') if seg.strip()]\<close>, then the loop.\<close>

definition segments_of :: "string \<Rightarrow> response_segment list" where
  "segments_of response =
     (let segments = map strip (filter (\<lambda>seg. strip seg \<noteq> []) (split_on (CHR 0x0A) response))
      in segment_loop 0 segments [])"

section \<open>Nodes and the store\<close>

text \<open>
  \<open>Node\<close> is a plain class: its body annotates \<open>message\<close>, \<open>response\<close>,
  \<open>response_segments\<close> and \<open>children\<close> without a value and gives \<open>parent\<close> the value
  \<open>None\<close>; no decorator builds an initialiser and nothing calls \<open>__post_init__\<close>, the one
  place that assigns \<open>_id\<close>. So \<open>Node()\<close> is an object on which the four annotated
  attributes and \<open>_id\<close> are absent (reading one raises \<open>AttributeError\<close>) until an
  assignment sets them. An attribute that may be absent is an option; \<open>parent\<close> is
  \<open>None\<close> for Python's \<open>None\<close>. \<open>id_attr\<close> is the attribute \<open>_id\<close>. The class
  attribute \<open>context\<close> is read nowhere and left out, as are the tree's identifier and
  time stamps.
\<close>

record node =
  message :: "string option"
  response :: "string option"
  response_segments :: "response_segment list option"
  parent :: "addr option"
  children :: "addr list option"
  id_attr :: "string option"

type_synonym heap = "node list"

definition lookup :: "heap \<Rightarrow> addr \<Rightarrow> node option" where
  "lookup h a = (if a < length h then Some (h ! a) else None)"

text \<open>\<open>Node()\<close>.\<close>

definition new_node :: node where
  "new_node = \<lparr>message = None, response = None, response_segments = None,
                parent = None, children = None, id_attr = None\<rparr>"

text \<open>
  A method returns its result or the exception raised, and the store as it is then.
  \<open>_segment_response\<close> empties \<open>response_segments\<close> before it reads \<open>response\<close>.
\<close>

definition segment_response :: "heap \<Rightarrow> addr \<Rightarrow> (error + unit) \<times> heap" where
  "segment_response h self =
     (case lookup h self of
        None \<Rightarrow> (Inl Dangling, h)
      | Some n \<Rightarrow>
          (let h1 = h[self := n\<lparr>response_segments := Some []\<rparr>] in
           case response n of
             None \<Rightarrow> (Inl AttributeError, h1)
           | Some r \<Rightarrow> (Inr (), h[self := n\<lparr>response_segments := Some (segments_of r)\<rparr>])))"

text \<open>\<open>Node.add_child\<close>. The child built before \<open>self.children\<close> is read is
  referenced by nothing when that read fails, and is dropped. The call
  \<open>print(child.response)\<close> writes to the standard output and changes no object; output
  is not part of the state here, nor is that of \<open>print(idx)\<close> in \<open>get_context\<close>.\<close>

definition add_child :: "heap \<Rightarrow> addr \<Rightarrow> string \<Rightarrow> string \<Rightarrow> (error + addr) \<times> heap" where
  "add_child h self msg resp =
     (case lookup h self of
        None \<Rightarrow> (Inl Dangling, h)
      | Some n \<Rightarrow>
          (let child = length h;
               h1 = h @ [new_node\<lparr>message := Some msg, response := Some resp,
                                  parent := Some self\<rparr>]
           in case children n of
                None \<Rightarrow> (Inl AttributeError, h)
              | Some cs \<Rightarrow> (Inr child, h1[self := n\<lparr>children := Some (cs @ [child])\<rparr>])))"

text \<open>\<open>Node.add_segment_specific_child\<close>.\<close>

definition add_segment_specific_child ::
  "heap \<Rightarrow> addr \<Rightarrow> int \<Rightarrow> string \<Rightarrow> string \<Rightarrow> (error + addr) \<times> heap" where
  "add_segment_specific_child h self segment_index msg resp =
     (case lookup h self of
        None \<Rightarrow> (Inl Dangling, h)
      | Some n \<Rightarrow>
          (case response_segments n of
             None \<Rightarrow> (Inl AttributeError, h)
           | Some segs \<Rightarrow>
               if 0 \<le> segment_index \<and> segment_index < int (length segs)
               then (let child = length h;
                         h1 = h @ [new_node\<lparr>message := Some msg, response := Some resp,
                                            parent := Some self\<rparr>];
                         seg = segs ! nat segment_index;
                         segs1 = segs[nat segment_index :=
                                   seg\<lparr>seg_children := seg_children seg @ [child]\<rparr>]
                     in (Inr child, h1[self := n\<lparr>response_segments := Some segs1\<rparr>]))
               else (Inl IndexError, h)))"

section \<open>The context builder: \<open>Node.get_context\<close>\<close>

text \<open>An entry \<open>{"role": r, "content": c}\<close> is the pair \<open>(r, c)\<close>. The pattern of
  \<open>re.split\<close> is \<open>(?<=[.!?]) +\<close>.\<close>

type_synonym entry = "string \<times> string"

definition SENTENCE_BREAK :: regex where
  "SENTENCE_BREAK = Seq [Behind (One_of ''.!?''), Plus (One_of '' '')]"

text \<open>The loop \<open>for element in context\<close> for one unit \<open>idx\<close>: both branches of its body
  end in \<open>break\<close>, so it runs for the first element only, and not at all on an empty
  list.\<close>

definition append_unit :: "entry list \<Rightarrow> string \<Rightarrow> error + entry list" where
  "append_unit context idx =
     (case context of
        [] \<Rightarrow> Inr context
      | element # _ \<Rightarrow>
          if fst element = ''user''
          then (case is_probable_system_heuristic idx False of
                  Inl e \<Rightarrow> Inl e
                | Inr b \<Rightarrow>
                    if b = True then Inr (context @ [(''system'', idx)])
                    else Inr (context @ [(''user'', idx)]))
          else (case is_probable_system_heuristic idx True of
                  Inl e \<Rightarrow> Inl e
                | Inr b \<Rightarrow>
                    if b = True then Inr (context @ [(''system'', idx)])
                    else Inr (context @ [(''user'', idx)])))"

text \<open>The loop \<open>for idx in reversed(line)\<close>, given the reversed list.\<close>

fun units_loop :: "string list \<Rightarrow> entry list \<Rightarrow> error + entry list" where
  "units_loop [] context = Inr context"
| "units_loop (idx # rest) context =
     (case append_unit context idx of
        Inl e \<Rightarrow> Inl e
      | Inr context1 \<Rightarrow> units_loop rest context1)"

text \<open>The loop \<open>while current != None\<close>. It need not end on a store whose parent links
  form a cycle: not returning is the value \<open>None\<close>.\<close>

partial_function (option) context_loop ::
  "heap \<Rightarrow> addr option \<Rightarrow> entry list \<Rightarrow> (error + entry list) option" where
  "context_loop h current context =
     (case current of
        None \<Rightarrow> Some (Inr context)
      | Some a \<Rightarrow>
          (case lookup h a of
             None \<Rightarrow> Some (Inl Dangling)
           | Some n \<Rightarrow>
               (case response n of
                  None \<Rightarrow> Some (Inl AttributeError)
                | Some r \<Rightarrow>
                    (case message n of
                       None \<Rightarrow> Some (Inl AttributeError)
                     | Some m \<Rightarrow>
                         (case units_loop (rev (re_split SENTENCE_BREAK m))
                                 (context @ [(''assistant'', r)]) of
                            Inl e \<Rightarrow> Some (Inl e)
                          | Inr context1 \<Rightarrow> context_loop h (parent n) context1)))))"

definition get_context :: "heap \<Rightarrow> addr \<Rightarrow> (error + entry list) option" where
  "get_context h self =
     (case context_loop h (Some self) [] of
        None \<Rightarrow> None
      | Some (Inl e) \<Rightarrow> Some (Inl e)
      | Some (Inr context) \<Rightarrow> Some (Inr (rev context)))"

text \<open>The nodes from \<open>a\<close> up to the root along the parent links, \<open>a\<close>'s first.\<close>

inductive path_to_root :: "heap \<Rightarrow> addr \<Rightarrow> node list \<Rightarrow> bool" where
  at_root: "lookup h a = Some n \<Longrightarrow> parent n = None \<Longrightarrow> path_to_root h a [n]"
| above: "lookup h a = Some n \<Longrightarrow> parent n = Some p \<Longrightarrow> path_to_root h p ns
          \<Longrightarrow> path_to_root h a (n # ns)"

text \<open>What a node adds to the transcript, by content: its sentences, then its response;
  an entry is marked when its role is \<open>assistant\<close>.\<close>

definition has_texts :: "node \<Rightarrow> bool" where
  "has_texts n = (message n \<noteq> None \<and> response n \<noteq> None)"

definition node_block :: "node \<Rightarrow> (bool \<times> string) list" where
  "node_block n =
     map (\<lambda>u. (False, u)) (re_split SENTENCE_BREAK (the (message n)))
     @ [(True, the (response n))]"

text \<open>The contents of the transcript as the specification words its construction: per
  node the response first, then the sentences in forward order, the whole reversed.\<close>

definition contents_as_stated :: "node list \<Rightarrow> string list" where
  "contents_as_stated ns =
     rev (concat (map (\<lambda>n. the (response n) # re_split SENTENCE_BREAK (the (message n))) ns))"

section \<open>The tree: \<open>tree.py\<close>\<close>

record tree =
  root_node :: "addr option"
  node_count :: int

text \<open>\<open>Tree()\<close>.\<close>

definition new_tree :: tree where
  "new_tree = \<lparr>root_node = None, node_count = 0\<rparr>"

definition create_root_node ::
  "heap \<Rightarrow> tree \<Rightarrow> string \<Rightarrow> string \<Rightarrow> (error + addr) \<times> heap \<times> tree" where
  "create_root_node h t user_message ai_response =
     (if root_node t \<noteq> None then (Inl ValueError, h, t)
      else (let root = length h;
                h1 = h @ [new_node\<lparr>message := Some user_message,
                                   response := Some ai_response, parent := None\<rparr>]
            in (Inr root, h1, t\<lparr>root_node := Some root, node_count := 1\<rparr>)))"

text \<open>
  \<open>_search_node_recursive\<close>. The recursion is as deep as the tree; \<open>depth\<close> is the number
  of calls the interpreter still allows, and a call beyond it raises \<open>RecursionError\<close>.
  \<open>search_children\<close> is the loop over \<open>node.children\<close>.
\<close>

fun search_node_recursive :: "nat \<Rightarrow> heap \<Rightarrow> addr \<Rightarrow> string \<Rightarrow> error + addr option"
  and search_children :: "nat \<Rightarrow> heap \<Rightarrow> addr list \<Rightarrow> string \<Rightarrow> error + addr option" where
  "search_node_recursive 0 h node node_id = Inl RecursionError"
| "search_node_recursive (Suc depth) h node node_id =
     (case lookup h node of
        None \<Rightarrow> Inl Dangling
      | Some n \<Rightarrow>
          if id_attr n \<noteq> None \<and> id_attr n = Some node_id then Inr (Some node)
          else (case children n of
                  None \<Rightarrow> Inl AttributeError
                | Some cs \<Rightarrow> search_children depth h cs node_id))"
| "search_children depth h [] node_id = Inr None"
| "search_children depth h (child # rest) node_id =
     (case search_node_recursive depth h child node_id of
        Inl e \<Rightarrow> Inl e
      | Inr (Some result) \<Rightarrow> Inr (Some result)
      | Inr None \<Rightarrow> search_children depth h rest node_id)"

definition find_node_by_id :: "nat \<Rightarrow> heap \<Rightarrow> tree \<Rightarrow> string \<Rightarrow> error + addr option" where
  "find_node_by_id depth h t node_id =
     (case root_node t of
        None \<Rightarrow> Inr None
      | Some root \<Rightarrow> search_node_recursive depth h root node_id)"

text \<open>\<open>get_all_nodes\<close> with \<open>_collect_nodes_recursive\<close>; \<open>nodes\<close> is the list the
  calls append to.\<close>

fun collect_nodes_recursive :: "nat \<Rightarrow> heap \<Rightarrow> addr \<Rightarrow> addr list \<Rightarrow> error + addr list"
  and collect_children :: "nat \<Rightarrow> heap \<Rightarrow> addr list \<Rightarrow> addr list \<Rightarrow> error + addr list" where
  "collect_nodes_recursive 0 h node nodes = Inl RecursionError"
| "collect_nodes_recursive (Suc depth) h node nodes =
     (case lookup h node of
        None \<Rightarrow> Inl Dangling
      | Some n \<Rightarrow>
          (case children n of
             None \<Rightarrow> Inl AttributeError
           | Some cs \<Rightarrow> collect_children depth h cs (nodes @ [node])))"
| "collect_children depth h [] nodes = Inr nodes"
| "collect_children depth h (child # rest) nodes =
     (case collect_nodes_recursive depth h child nodes of
        Inl e \<Rightarrow> Inl e
      | Inr nodes1 \<Rightarrow> collect_children depth h rest nodes1)"

definition get_all_nodes :: "nat \<Rightarrow> heap \<Rightarrow> tree \<Rightarrow> error + addr list" where
  "get_all_nodes depth h t =
     (case root_node t of
        None \<Rightarrow> Inr []
      | Some root \<Rightarrow> collect_nodes_recursive depth h root [])"

text \<open>\<open>get_conversation_path\<close>: the search, then the loop \<open>while current is not None\<close>
  with \<open>path.insert(0, current)\<close>.\<close>

partial_function (option) path_loop ::
  "heap \<Rightarrow> addr option \<Rightarrow> addr list \<Rightarrow> (error + addr list) option" where
  "path_loop h current path =
     (case current of
        None \<Rightarrow> Some (Inr path)
      | Some a \<Rightarrow>
          (case lookup h a of
             None \<Rightarrow> Some (Inl Dangling)
           | Some n \<Rightarrow> path_loop h (parent n) (a # path)))"

definition get_conversation_path ::
  "nat \<Rightarrow> heap \<Rightarrow> tree \<Rightarrow> string \<Rightarrow> (error + addr list) option" where
  "get_conversation_path depth h t node_id =
     (case find_node_by_id depth h t node_id of
        Inl e \<Rightarrow> Some (Inl e)
      | Inr None \<Rightarrow> Some (Inr [])
      | Inr (Some target_node) \<Rightarrow> path_loop h (Some target_node) [])"

text \<open>\<open>Tree.add_child_node\<close> and \<open>Tree.add_segment_specific_child\<close>; the latter turns
  the \<open>IndexError\<close> of the node's method into the result \<open>None\<close>.\<close>

definition add_child_node ::
  "nat \<Rightarrow> heap \<Rightarrow> tree \<Rightarrow> string \<Rightarrow> string \<Rightarrow> string
     \<Rightarrow> (error + addr option) \<times> heap \<times> tree" where
  "add_child_node depth h t parent_node_id user_message ai_response =
     (case find_node_by_id depth h t parent_node_id of
        Inl e \<Rightarrow> (Inl e, h, t)
      | Inr None \<Rightarrow> (Inr None, h, t)
      | Inr (Some parent_node) \<Rightarrow>
          (case lookup h parent_node of
             None \<Rightarrow> (Inl Dangling, h, t)
           | Some n \<Rightarrow>
               (let child = length h;
                    h1 = h @ [new_node\<lparr>message := Some user_message,
                                       response := Some ai_response,
                                       parent := Some parent_node\<rparr>]
                in case children n of
                     None \<Rightarrow> (Inl AttributeError, h, t)
                   | Some cs \<Rightarrow>
                       (Inr (Some child),
                        h1[parent_node := n\<lparr>children := Some (cs @ [child])\<rparr>],
                        t\<lparr>node_count := node_count t + 1\<rparr>))))"

definition tree_add_segment_specific_child ::
  "nat \<Rightarrow> heap \<Rightarrow> tree \<Rightarrow> string \<Rightarrow> int \<Rightarrow> string \<Rightarrow> string
     \<Rightarrow> (error + addr option) \<times> heap \<times> tree" where
  "tree_add_segment_specific_child depth h t parent_node_id segment_index user_message ai_response =
     (case find_node_by_id depth h t parent_node_id of
        Inl e \<Rightarrow> (Inl e, h, t)
      | Inr None \<Rightarrow> (Inr None, h, t)
      | Inr (Some parent_node) \<Rightarrow>
          (case add_segment_specific_child h parent_node segment_index user_message ai_response of
             (Inr child, h1) \<Rightarrow> (Inr (Some child), h1, t\<lparr>node_count := node_count t + 1\<rparr>)
           | (Inl e, h1) \<Rightarrow>
               if e = IndexError then (Inr None, h1, t) else (Inl e, h1, t)))"

text \<open>The states that calls of the methods above lead to from an empty store and a new
  tree, whatever the calls return.\<close>

inductive reachable :: "heap \<Rightarrow> tree \<Rightarrow> bool" where
  start: "reachable [] new_tree"
| by_create_root_node:
    "reachable h t \<Longrightarrow> create_root_node h t m r = (res, h1, t1) \<Longrightarrow> reachable h1 t1"
| by_segment_response:
    "reachable h t \<Longrightarrow> segment_response h a = (res0, h1) \<Longrightarrow> reachable h1 t"
| by_add_child:
    "reachable h t \<Longrightarrow> add_child h p m r = (res, h1) \<Longrightarrow> reachable h1 t"
| by_add_segment_specific_child:
    "reachable h t \<Longrightarrow> add_segment_specific_child h p i m r = (res, h1) \<Longrightarrow> reachable h1 t"
| by_add_child_node:
    "reachable h t \<Longrightarrow> add_child_node d h t pid m r = (res1, h1, t1) \<Longrightarrow> reachable h1 t1"
| by_tree_add_segment_specific_child:
    "reachable h t \<Longrightarrow> tree_add_segment_specific_child d h t pid i m r = (res1, h1, t1)
     \<Longrightarrow> reachable h1 t1"

text \<open>The root, and no other node of the store, has no parent.\<close>

definition parent_inv :: "heap \<Rightarrow> tree \<Rightarrow> bool" where
  "parent_inv h t = ((\<forall>a. root_node t = Some a \<longrightarrow> a < length h)
     \<and> (\<forall>a. a < length h \<longrightarrow> (parent (h ! a) = None) = (root_node t = Some a)))"

text \<open>The entry that a unit gets when the flag passed to the classifier is true, and
  the entries a node adds during the walk: its response, then its units, last first.\<close>

definition unit_entry :: "string \<Rightarrow> entry" where
  "unit_entry idx =
     (if is_probable_system_heuristic idx True = Inr True then (''system'', idx)
      else (''user'', idx))"

definition collected_block :: "node \<Rightarrow> entry list" where
  "collected_block n =
     (''assistant'', the (response n))
     # map unit_entry (rev (re_split SENTENCE_BREAK (the (message n))))"

text \<open>The list collected so far is empty or its first entry is no user entry.\<close>

definition head_not_user :: "entry list \<Rightarrow> bool" where
  "head_not_user ctx = (case ctx of [] \<Rightarrow> True | e # _ \<Rightarrow> fst e \<noteq> ''user'')"

text \<open>No node of the store has an identifier or a list of children.\<close>

definition bare_inv :: "heap \<Rightarrow> bool" where
  "bare_inv h = list_all (\<lambda>n. id_attr n = None \<and> children n = None) h"

section \<open>Facts about strings and patterns\<close>

lemma rstrip_decomp: "\<exists>tr. u = rev (dropWhile P (rev u)) @ tr \<and> list_all P tr"
proof -
  have "rev u = takeWhile P (rev u) @ dropWhile P (rev u)" by simp
  then have "u = rev (dropWhile P (rev u)) @ rev (takeWhile P (rev u))"
    by (metis rev_append rev_rev_ident)
  moreover have "list_all P (rev (takeWhile P (rev u)))"
    by (simp add: list_all_iff) (meson set_takeWhileD)
  ultimately show ?thesis by blast
qed

lemma strip_decomp: "\<exists>tr. dropWhile isspace t = strip t @ tr \<and> list_all isspace tr"
  unfolding strip_def by (rule rstrip_decomp)

lemma strip_hd: "strip t \<noteq> [] \<Longrightarrow> \<not> isspace (hd (strip t))"
proof -
  assume ne: "strip t \<noteq> []"
  obtain tr where d: "dropWhile isspace t = strip t @ tr" using strip_decomp by blast
  then have "dropWhile isspace t \<noteq> []" using ne by simp
  then have "\<not> isspace (hd (dropWhile isspace t))" by (rule hd_dropWhile)
  then show ?thesis using d ne by simp
qed

lemma split_ws_from_run:
  "split_ws_from cur s =
     (if rev cur @ takeWhile (\<lambda>c. \<not> isspace c) s = [] then []
      else [rev cur @ takeWhile (\<lambda>c. \<not> isspace c) s])
     @ split_ws_from [] (dropWhile (\<lambda>c. \<not> isspace c) s)"
  by (induction s arbitrary: cur) auto

lemma takeWhile_strip:
  "takeWhile (\<lambda>c. \<not> isspace c) (strip t) = takeWhile (\<lambda>c. \<not> isspace c) (dropWhile isspace t)"
proof -
  obtain tr where d: "dropWhile isspace t = strip t @ tr" and tr: "list_all isspace tr"
    using strip_decomp by blast
  have "takeWhile (\<lambda>c. \<not> isspace c) tr = []"
    using tr by (cases tr) auto
  then show ?thesis unfolding d by (simp add: takeWhile_append)
qed

lemma first_word_total: "first_word (strip t) = Inr (first_token t)"
proof (cases "strip t = []")
  case True
  then have "takeWhile (\<lambda>c. \<not> isspace c) (dropWhile isspace t) = []"
    using takeWhile_strip [of t] by simp
  then show ?thesis using True by (simp add: first_word_def first_token_def lower_def)
next
  case False
  then have "\<not> isspace (hd (strip t))" by (rule strip_hd)
  then have "takeWhile (\<lambda>c. \<not> isspace c) (strip t) \<noteq> []"
    using False by (cases "strip t") auto
  then have "split_ws (strip t) =
      takeWhile (\<lambda>c. \<not> isspace c) (strip t) # split_ws_from [] (dropWhile (\<lambda>c. \<not> isspace c) (strip t))"
    unfolding split_ws_def by (subst split_ws_from_run) simp
  then show ?thesis using False
    by (simp add: first_word_def first_token_def takeWhile_strip)
qed


lemma word_before_0: "\<not> word_before s 0"
  by (simp add: word_before_def)


lemma of_char_lower:
  assumes "(of_char c :: nat) \<le> 222"
  shows "(of_char (char_of ((of_char c :: nat) + 32) :: char) :: nat) = of_char c + 32"
proof -
  have "(of_char c :: nat) + 32 < 256" using assms by simp
  then show ?thesis by (simp add: of_char_of)
qed

lemma lower_char_word: "is_word_char (lower_char c) = is_word_char c"
proof -
  define n where "n = (of_char c :: nat)"
  consider (a) "65 \<le> n \<and> n \<le> 90" | (b) "192 \<le> n \<and> n \<le> 214" | (d) "216 \<le> n \<and> n \<le> 222"
    | (e) "\<not> ((65 \<le> n \<and> n \<le> 90) \<or> (192 \<le> n \<and> n \<le> 214) \<or> (216 \<le> n \<and> n \<le> 222))"
    by blast
  then show ?thesis
  proof cases
    case a
    then have l: "lower_char c = char_of (n + 32)" by (simp add: lower_char_def n_def)
    have m: "(of_char (char_of (n + 32) :: char) :: nat) = n + 32"
      unfolding n_def using a by (intro of_char_lower) (simp add: n_def)
    have "97 \<le> n + 32 \<and> n + 32 \<le> 122" using a by simp
    then have "is_word_char (char_of (n + 32))" unfolding is_word_char_def Let_def m by blast
    moreover have "is_word_char c" unfolding is_word_char_def Let_def using a n_def by blast
    ultimately show ?thesis using l by simp
  next
    case b
    then have l: "lower_char c = char_of (n + 32)" by (simp add: lower_char_def n_def)
    have m: "(of_char (char_of (n + 32) :: char) :: nat) = n + 32"
      unfolding n_def using b by (intro of_char_lower) (simp add: n_def)
    have "216 \<le> n + 32 \<and> n + 32 \<le> 246" using b by simp
    then have "is_word_char (char_of (n + 32))" unfolding is_word_char_def Let_def m by blast
    moreover have "is_word_char c" unfolding is_word_char_def Let_def using b n_def by blast
    ultimately show ?thesis using l by simp
  next
    case d
    then have l: "lower_char c = char_of (n + 32)" by (simp add: lower_char_def n_def)
    have m: "(of_char (char_of (n + 32) :: char) :: nat) = n + 32"
      unfolding n_def using d by (intro of_char_lower) (simp add: n_def)
    have "248 \<le> n + 32 \<and> n + 32 \<le> 255" using d by simp
    then have "is_word_char (char_of (n + 32))" unfolding is_word_char_def Let_def m by blast
    moreover have "n \<le> 246" using d by simp
    then have "is_word_char c" unfolding is_word_char_def Let_def using d n_def by blast
    ultimately show ?thesis using l by simp
  next
    case e
    then have "lower_char c = c" unfolding lower_char_def Let_def n_def by auto
    then show ?thesis by simp
  qed
qed

lemma lit_bounds:
  assumes "lower (take (length p) (drop i s)) = lower p" and "p \<noteq> []"
  shows "i + length p \<le> length s"
proof -
  have "length (take (length p) (drop i s)) = length p"
    using assms(1) by (metis length_map lower_def)
  then have "min (length s - i) (length p) = length p" by simp
  moreover have "0 < length p" using assms(2) by simp
  ultimately show ?thesis by arith
qed

lemma lit_nth:
  assumes m: "lower (take (length p) (drop i s)) = lower p" and k: "k < length p"
  shows "lower_char (s ! (i + k)) = lower_char (p ! k)"
proof -
  have b: "i + length p \<le> length s" using m k by (intro lit_bounds) auto
  have "lower (take (length p) (drop i s)) ! k = lower p ! k" using m by simp
  then show ?thesis using k b by (simp add: lower_def)
qed

lemma lit_word_before:
  assumes m: "lower (take (length p) (drop i s)) = lower p"
    and ne: "p \<noteq> []" and w: "is_word_char (last p)"
  shows "word_before s (i + length p)"
proof -
  have b: "i + length p \<le> length s" using m ne by (rule lit_bounds)
  have "lower_char (s ! (i + (length p - 1))) = lower_char (p ! (length p - 1))"
    using m ne by (intro lit_nth) simp_all
  then have "is_word_char (s ! (i + (length p - 1))) = is_word_char (last p)"
    using ne by (metis lower_char_word last_conv_nth)
  moreover have "i + length p - 1 = i + (length p - 1)" using ne by (cases p) simp_all
  ultimately show ?thesis using b ne w by (simp add: word_before_def)
qed

lemma lit_word_after:
  assumes m: "lower (take (length p) (drop i s)) = lower p"
    and ne: "p \<noteq> []" and w: "is_word_char (hd p)"
  shows "word_after s i"
proof -
  have b: "i + length p \<le> length s" using m ne by (rule lit_bounds)
  have "lower_char (s ! (i + 0)) = lower_char (p ! 0)"
    using m ne by (intro lit_nth) simp_all
  then have "is_word_char (s ! i) = is_word_char (hd p)"
    using ne by (metis lower_char_word hd_conv_nth add.right_neutral)
  then show ?thesis using b ne w by (cases p) (simp_all add: word_after_def)
qed

lemma anchored_phrase:
  assumes "p \<noteq> []" "is_word_char (last p)"
  shows "rmatch True (Seq [Bol, Lit p, Word_boundary]) s i \<noteq> [] \<longleftrightarrow> i = 0 \<and> phrase_at s 0 p"
  using assms lit_word_before [of p 0 s]
  by (auto simp: phrase_at_def at_boundary_def word_before_0)

lemma bounded_phrase:
  assumes "p \<noteq> []" "is_word_char (hd p)" "is_word_char (last p)"
  shows "rmatch True (Seq [Word_boundary, Lit p, Word_boundary]) s i \<noteq> [] \<longleftrightarrow> phrase_at s i p"
  using assms lit_word_before [of p i s] lit_word_after [of p i s]
  by (auto simp: phrase_at_def at_boundary_def)

lemma phrase_at_end: "p \<noteq> [] \<Longrightarrow> \<not> phrase_at s (length s) p"
  by (simp add: phrase_at_def lower_def)

lemma system_regex_search:
  "re_search True (Alt SYSTEM_PATTERNS) s \<longleftrightarrow>
     phrase_at s 0 ''you are'' \<or> phrase_at s 0 ''you should''
     \<or> phrase_at s 0 ''always'' \<or> phrase_at s 0 ''never''
     \<or> list_ex (\<lambda>i. phrase_at s i ''make sure'') [0 ..< length s]"
proof -
  have a: "\<And>i. rmatch True (Seq [Bol, Lit ''you are'', Word_boundary]) s i \<noteq> [] \<longleftrightarrow> i = 0 \<and> phrase_at s 0 ''you are''"
    by (rule anchored_phrase) (simp_all add: is_word_char_def)
  have b: "\<And>i. rmatch True (Seq [Bol, Lit ''you should'', Word_boundary]) s i \<noteq> [] \<longleftrightarrow> i = 0 \<and> phrase_at s 0 ''you should''"
    by (rule anchored_phrase) (simp_all add: is_word_char_def)
  have c: "\<And>i. rmatch True (Seq [Bol, Lit ''always'', Word_boundary]) s i \<noteq> [] \<longleftrightarrow> i = 0 \<and> phrase_at s 0 ''always''"
    by (rule anchored_phrase) (simp_all add: is_word_char_def)
  have d: "\<And>i. rmatch True (Seq [Bol, Lit ''never'', Word_boundary]) s i \<noteq> [] \<longleftrightarrow> i = 0 \<and> phrase_at s 0 ''never''"
    by (rule anchored_phrase) (simp_all add: is_word_char_def)
  have e: "\<And>i. rmatch True (Seq [Word_boundary, Lit ''make sure'', Word_boundary]) s i \<noteq> [] \<longleftrightarrow> phrase_at s i ''make sure''"
    by (rule bounded_phrase) (simp_all add: is_word_char_def)
  have f: "\<not> phrase_at s (length s) ''make sure''"
    by (rule phrase_at_end) simp
  have alt: "\<And>i. rmatch True (Alt SYSTEM_PATTERNS) s i \<noteq> [] \<longleftrightarrow>
      (i = 0 \<and> (phrase_at s 0 ''you are'' \<or> phrase_at s 0 ''you should''
        \<or> phrase_at s 0 ''always'' \<or> phrase_at s 0 ''never''))
      \<or> phrase_at s i ''make sure''"
    unfolding SYSTEM_PATTERNS_def rmatch.simps(10) rmatch.simps(9) append_is_Nil_conv de_Morgan_conj a b c d e
    by blast
  show ?thesis
    unfolding re_search_def list_ex_iff alt using f
    by (auto simp: less_Suc_eq)
qed


lemma strip_run_length: "run_length Whitespace (strip t) 0 = 0"
proof (cases "strip t")
  case Nil
  then show ?thesis by (simp add: run_length_def)
next
  case (Cons c cs)
  then have "\<not> isspace c" using strip_hd [of t] by simp
  then show ?thesis using Cons by (simp add: run_length_def)
qed

lemma meta_tags_match:
  "re_match True META_TAGS (strip t) \<longleftrightarrow>
     begins_with (strip t) ''[SYSTEM]'' \<or> begins_with (strip t) ''##SYSTEM##''
     \<or> begins_with (strip t) ''(system)''"
  by (simp add: re_match_def META_TAGS_def strip_run_length begins_with_def)

lemma begins_with_shorter:
  "begins_with s (p @ q) \<Longrightarrow> begins_with s p"
proof -
  assume a: "begins_with s (p @ q)"
  then have "take (length p) (lower (take (length (p @ q)) s)) = take (length p) (lower (p @ q))"
    by (simp add: begins_with_def)
  then show ?thesis by (simp add: begins_with_def lower_def take_map min_def)
qed

lemma tag_with_colon: "begins_with s ''[SYSTEM]:'' \<Longrightarrow> begins_with s ''[SYSTEM]''"
  using begins_with_shorter [of s "''[SYSTEM]''" "'':''"] by simp

lemma startswith_lower:
  "lower p = p \<Longrightarrow> startswith (lower s) p = begins_with s p"
  by (simp add: startswith_def begins_with_def lower_def take_map)

lemma structural_rule:
  "((CHR 0x0A \<in> set t \<and> 1 \<le> count_list t (CHR 0x0A)) \<or> CHR '';'' \<in> set t) = rule4 t"
proof -
  have "CHR 0x0A \<in> set t \<Longrightarrow> 1 \<le> count_list t (CHR 0x0A)"
    using count_list_0_iff [of t "CHR 0x0A"] by arith
  then show ?thesis unfolding rule4_def by blast
qed

lemma heuristic_rules:
  "is_probable_system_heuristic t flag =
     Inr (rule1 t
          \<or> (begins_with (strip t) ''[SYSTEM]'' \<or> begins_with (strip t) ''##SYSTEM##''
              \<or> begins_with (strip t) ''(system)'')
          \<or> rule3 t \<or> rule4 t \<or> rule5 t flag)"
proof -
  have g: "startswith (lower (strip t)) ''hi'' = begins_with (strip t) ''hi''"
      "startswith (lower (strip t)) ''hello'' = begins_with (strip t) ''hello''"
      "startswith (lower (strip t)) ''hey'' = begins_with (strip t) ''hey''"
    by (rule startswith_lower, simp add: lower_def lower_char_def)+
  show ?thesis
    unfolding is_probable_system_heuristic_def Let_def system_regex_search meta_tags_match
      first_word_total structural_rule g
    by (simp add: rule1_def rule3_def rule5_def Let_def)
qed


section \<open>The role classifier\<close>

lemma whitespace_only_strip: "list_all isspace t \<Longrightarrow> strip t = []"
  unfolding strip_def by (auto simp: list_all_iff dest: set_dropWhileD)

lemma semicolon_not_space: "\<not> isspace (CHR '';'')"
  by (simp add: isspace_def)

lemma whitespace_only_no_semicolon: "list_all isspace t \<Longrightarrow> CHR '';'' \<notin> set t"
  using semicolon_not_space by (auto simp: list_all_iff)

text \<open>
  C3. As stated the claim fails: by rule 1 a text that begins with "never" is SYSTEM, but
  the method's pattern is \<open>^never\b\<close>, so "Nevertheless, is it raining?" matches no
  rule and, with the flag false, is USER.
\<close>

theorem classifier_prefix_counterexample:
  "rule1_as_stated ''Nevertheless, is it raining?''
   \<and> is_probable_system_heuristic ''Nevertheless, is it raining?'' False = Inr False"
  by code_simp

text \<open>
  C3, amended. For every text and either flag the method never raises and returns the
  verdict of the six ordered rules, the first match winning, where rule 1 reads the
  trimmed text on whole words: it begins with "you are", "you should", "always" or
  "never" ending at a word boundary, or holds "make sure" between two word boundaries;
  rules 2, 3 and 5 read the trimmed text too, rule 4 the text as given. Texts that begin
  with \<open>[SYSTEM]\<close> not followed by a colon are left aside. The four scenarios of the
  specification hold for either flag.
\<close>

lemma eval_examples:
  "is_probable_system_heuristic ''You are a helpful assistant.'' True = Inr True"
  "is_probable_system_heuristic ''You are a helpful assistant.'' False = Inr True"
  "is_probable_system_heuristic ''Hi, how are you?'' True = Inr False"
  "is_probable_system_heuristic ''Hi, how are you?'' False = Inr False"
  "is_probable_system_heuristic ''Validate the input.'' True = Inr True"
  "is_probable_system_heuristic ''Validate the input.'' False = Inr True"
  "is_probable_system_heuristic ''What's the weather; is it raining?'' True = Inr True"
  "is_probable_system_heuristic ''What's the weather; is it raining?'' False = Inr True"
  by code_simp+

theorem classifier_ordered_rules:
  "(\<not> bare_system_tag text \<longrightarrow>
      is_probable_system_heuristic text flag = Inr (classify text flag = SYSTEM))
   \<and> is_probable_system_heuristic ''You are a helpful assistant.'' flag = Inr True
   \<and> is_probable_system_heuristic ''Hi, how are you?'' flag = Inr False
   \<and> is_probable_system_heuristic ''Validate the input.'' flag = Inr True
   \<and> is_probable_system_heuristic ''What's the weather; is it raining?'' flag = Inr True"
proof -
  have general: "\<not> bare_system_tag text \<longrightarrow>
      is_probable_system_heuristic text flag = Inr (classify text flag = SYSTEM)"
  proof
    assume "\<not> bare_system_tag text"
    then have "begins_with (strip text) ''[SYSTEM]'' = begins_with (strip text) ''[SYSTEM]:''"
      using tag_with_colon [of "strip text"] by (auto simp: bare_system_tag_def)
    then show "is_probable_system_heuristic text flag = Inr (classify text flag = SYSTEM)"
      unfolding heuristic_rules by (simp add: classify_def rule2_def Let_def)
  qed
  have e1: "is_probable_system_heuristic ''You are a helpful assistant.'' flag = Inr True"
    by (cases flag) (simp_all only: eval_examples)
  have e2: "is_probable_system_heuristic ''Hi, how are you?'' flag = Inr False"
    by (cases flag) (simp_all only: eval_examples)
  have e3: "is_probable_system_heuristic ''Validate the input.'' flag = Inr True"
    by (cases flag) (simp_all only: eval_examples)
  have e4: "is_probable_system_heuristic ''What's the weather; is it raining?'' flag = Inr True"
    by (cases flag) (simp_all only: eval_examples)
  from general e1 e2 e3 e4 show ?thesis by blast
qed

theorem classifier_ordered_rules_witness:
  "\<not> bare_system_tag ''Tell me more.''
   \<and> classify ''Tell me more.'' True = SYSTEM
   \<and> is_probable_system_heuristic ''Tell me more.'' True = Inr True"
proof -
  have h: "\<not> bare_system_tag ''Tell me more.''" by code_simp
  have c: "classify ''Tell me more.'' True = SYSTEM" by code_simp
  from classifier_ordered_rules [of "''Tell me more.''" True] h c show ?thesis by simp
qed

text \<open>
  C4. As stated the claim fails: the text of one line feed is white space only, but the
  structural rule reads the text before trimming, finds the line feed, and answers SYSTEM
  although the flag is false.
\<close>

theorem whitespace_line_break_counterexample:
  "list_all isspace [CHR 0x0A]
   \<and> is_probable_system_heuristic [CHR 0x0A] False = Inr True"
  by code_simp

text \<open>
  C4, amended. For every empty or white-space-only text and either flag, rules 1 to 3
  do not match (the pattern search and the tag match fail, the first token is the empty
  string, which is no verb of the set); rule 4 matches exactly when the text holds a line
  feed; so the method returns SYSTEM exactly when the text holds a line feed or the flag
  is true, and USER otherwise.
\<close>

theorem whitespace_only_text:
  assumes "list_all isspace text"
  shows "\<not> re_search True (Alt SYSTEM_PATTERNS) (strip text)
     \<and> \<not> re_match True META_TAGS (strip text)
     \<and> first_word (strip text) = Inr []
     \<and> [] \<notin> set IMPERATIVE_VERBS
     \<and> rule4 text = (CHR 0x0A \<in> set text)
     \<and> is_probable_system_heuristic text flag = Inr (CHR 0x0A \<in> set text \<or> flag)"
proof -
  have s: "strip text = []" using assms by (rule whitespace_only_strip)
  have semi: "CHR '';'' \<notin> set text" using assms by (rule whitespace_only_no_semicolon)
  have r1: "\<not> re_search True (Alt SYSTEM_PATTERNS) (strip text)"
    unfolding system_regex_search s by (simp add: phrase_at_def lower_def)
  have r2: "\<not> re_match True META_TAGS (strip text)"
    using meta_tags_match [of "text"] by (simp add: s begins_with_def lower_def)
  have r3: "first_word (strip text) = Inr []"
    unfolding s by (simp add: first_word_def)
  have v: "[] \<notin> set IMPERATIVE_VERBS" by (simp add: IMPERATIVE_VERBS_def)
  have r4: "rule4 text = (CHR 0x0A \<in> set text)" using semi by (simp add: rule4_def)
  have r5: "is_probable_system_heuristic text flag = Inr (CHR 0x0A \<in> set text \<or> flag)"
    unfolding is_probable_system_heuristic_def Let_def structural_rule r4
    using r1 r2 r3 v by (simp add: s endswith_def startswith_def lower_def)
  from r1 r2 r3 v r4 r5 show ?thesis by blast
qed

theorem whitespace_only_text_witness:
  "list_all isspace ''  ''
   \<and> is_probable_system_heuristic ''  '' True = Inr True
   \<and> is_probable_system_heuristic ''  '' False = Inr False"
proof -
  have h: "list_all isspace ''  ''" by code_simp
  from whitespace_only_text [OF h, of True] whitespace_only_text [OF h, of False]
  show ?thesis using h by simp
qed

section \<open>The segmentation engine\<close>

lemma segment_loop_content:
  "map content (segment_loop idx cs acc) = map content acc @ cs"
  by (induction cs arbitrary: idx acc) simp_all

lemma segment_loop_index:
  "map index (segment_loop idx cs acc) =
     map index acc @ map (\<lambda>i. idx + int i) [0 ..< length cs]"
proof (induction cs arbitrary: idx acc)
  case Nil
  then show ?case by simp
next
  case (Cons c rest)
  have "map (\<lambda>i. idx + int i) [0 ..< Suc (length rest)] =
      idx # map (\<lambda>i. idx + 1 + int i) [0 ..< length rest]"
    by (simp add: map_upt_Suc add.assoc del: upt_Suc)
  then show ?case using Cons.IH [of "idx + 1"] by simp
qed

lemma segment_loop_children:
  "list_all (\<lambda>s. seg_children s = []) acc \<Longrightarrow>
   list_all (\<lambda>s. seg_children s = []) (segment_loop idx cs acc)"
  by (induction cs arbitrary: idx acc) simp_all

lemma segments_of_content:
  "map content (segments_of r) = filter (\<lambda>l. l \<noteq> []) (map strip (split_on (CHR 0x0A) r))"
  by (simp add: segments_of_def segment_loop_content filter_map comp_def)

lemma segments_of_length:
  "length (segments_of r) = length (filter (\<lambda>l. l \<noteq> []) (map strip (split_on (CHR 0x0A) r)))"
  using segments_of_content [of r] by (metis length_map)

lemma segments_of_index:
  "map index (segments_of r) = map int [0 ..< length (segments_of r)]"
proof -
  have "length (segments_of r) = length (map strip (filter (\<lambda>seg. strip seg \<noteq> []) (split_on (CHR 0x0A) r)))"
    using segment_loop_content [of 0 "map strip (filter (\<lambda>seg. strip seg \<noteq> []) (split_on (CHR 0x0A) r))" "[]"]
    by (metis segments_of_def length_map list.simps(8) append_Nil)
  then show ?thesis
    by (simp add: segments_of_def segment_loop_index comp_def)
qed

lemma segments_of_children: "list_all (\<lambda>s. seg_children s = []) (segments_of r)"
  by (simp add: segments_of_def segment_loop_children)

lemma segments_of_nonblank: "list_all (\<lambda>s. content s \<noteq> []) (segments_of r)"
proof -
  have "list_all (\<lambda>l. l \<noteq> []) (map content (segments_of r))"
    unfolding segments_of_content by (simp add: list_all_iff)
  then show ?thesis by (simp add: list_all_iff)
qed

lemma segments_of_all_blank:
  "list_all (\<lambda>l. strip l = []) (split_on (CHR 0x0A) r) \<Longrightarrow> segments_of r = []"
proof -
  assume "list_all (\<lambda>l. strip l = []) (split_on (CHR 0x0A) r)"
  then have "filter (\<lambda>seg. strip seg \<noteq> []) (split_on (CHR 0x0A) r) = []"
    by (simp add: list_all_iff filter_empty_conv)
  then show ?thesis by (simp add: segments_of_def)
qed

lemma segment_response_result:
  assumes "lookup h a = Some n" and "response n = Some r"
  shows "segment_response h a = (Inr (), h[a := n\<lparr>response_segments := Some (segments_of r)\<rparr>])"
  using assms by (simp add: segment_response_def)

lemma segment_response_twice:
  assumes "lookup h a = Some n" and "response n = Some r"
  shows "segment_response (snd (segment_response h a)) a = segment_response h a"
proof -
  let ?n = "n\<lparr>response_segments := Some (segments_of r)\<rparr>"
  let ?h = "h[a := ?n]"
  have a: "a < length h" using assms(1) by (simp add: lookup_def split: if_splits)
  have l: "lookup ?h a = Some ?n" using a by (simp add: lookup_def)
  have r: "response ?n = Some r" using assms(2) by simp
  have "segment_response ?h a = (Inr (), ?h[a := ?n\<lparr>response_segments := Some (segments_of r)\<rparr>])"
    using l r by (rule segment_response_result)
  then show ?thesis using assms by (simp add: segment_response_result)
qed


text \<open>
  C5. For every response string the segments are exactly the trimmed non-blank lines of
  the string (the pieces between line feeds), in their order; their indices are
  \<open>0, ..., k - 1\<close>; every segment has no children; no segment is blank, and a response
  whose lines are all blank gives the empty list, not an error. Segmenting is a function
  of the string: on a node that has a response, \<open>_segment_response\<close> returns normally,
  stores these segments, and a second run leaves the same store.
\<close>

theorem segmentation_engine:
  "map content (segments_of r) = filter (\<lambda>l. l \<noteq> []) (map strip (split_on (CHR 0x0A) r))
   \<and> map index (segments_of r) = map int [0 ..< length (segments_of r)]
   \<and> list_all (\<lambda>s. seg_children s = []) (segments_of r)
   \<and> list_all (\<lambda>s. content s \<noteq> []) (segments_of r)
   \<and> (list_all (\<lambda>l. strip l = []) (split_on (CHR 0x0A) r) \<longrightarrow> segments_of r = [])
   \<and> (lookup h a = Some n \<and> response n = Some r \<longrightarrow>
        segment_response h a =
          (Inr (), h[a := n\<lparr>response_segments := Some (segments_of r)\<rparr>])
        \<and> segment_response (snd (segment_response h a)) a = segment_response h a)"
  using segments_of_content [of r] segments_of_index [of r] segments_of_children [of r]
    segments_of_nonblank [of r] segments_of_all_blank [of r]
    segment_response_result [of h a n r] segment_response_twice [of h a n r]
  by blast

theorem segmentation_engine_witness:
  "map content (segments_of
      ''Python is a high-level programming language.\<newline>\<newline>\<newline>It's known for its simple syntax and readability.\<newline>\<newline>Python supports multiple programming paradigms.'')
     = [''Python is a high-level programming language.'',
        ''It's known for its simple syntax and readability.'',
        ''Python supports multiple programming paradigms.'']
   \<and> map index (segments_of
      ''Python is a high-level programming language.\<newline>\<newline>\<newline>It's known for its simple syntax and readability.\<newline>\<newline>Python supports multiple programming paradigms.'')
     = [0, 1, 2]
   \<and> list_all (\<lambda>l. strip l = []) (split_on (CHR 0x0A) '' \<newline>\<newline>  '')
   \<and> segments_of '' \<newline>\<newline>  '' = []
   \<and> lookup [new_node\<lparr>response := Some ''a\<newline>b''\<rparr>] 0 = Some (new_node\<lparr>response := Some ''a\<newline>b''\<rparr>)
   \<and> response (new_node\<lparr>response := Some ''a\<newline>b''\<rparr>) = Some ''a\<newline>b''
   \<and> segment_response (snd (segment_response [new_node\<lparr>response := Some ''a\<newline>b''\<rparr>] 0)) 0
       = segment_response [new_node\<lparr>response := Some ''a\<newline>b''\<rparr>] 0"
proof -
  let ?ex = "''Python is a high-level programming language.\<newline>\<newline>\<newline>It's known for its simple syntax and readability.\<newline>\<newline>Python supports multiple programming paradigms.''"
  let ?n = "new_node\<lparr>response := Some ''a\<newline>b''\<rparr>"
  have lines: "filter (\<lambda>l. l \<noteq> []) (map strip (split_on (CHR 0x0A) ?ex))
      = [''Python is a high-level programming language.'',
         ''It's known for its simple syntax and readability.'',
         ''Python supports multiple programming paradigms.'']"
    by code_simp
  have c: "map content (segments_of ?ex)
      = [''Python is a high-level programming language.'',
         ''It's known for its simple syntax and readability.'',
         ''Python supports multiple programming paradigms.'']"
    using segmentation_engine [of ?ex] lines by simp
  then have "length (map content (segments_of ?ex)) = 3" by simp
  then have len: "length (segments_of ?ex) = 3" by simp
  have i: "map index (segments_of ?ex) = [0, 1, 2]"
    using segmentation_engine [of ?ex] len by (simp add: upt_rec)
  have blank: "list_all (\<lambda>l. strip l = []) (split_on (CHR 0x0A) '' \<newline>\<newline>  '')"
    by code_simp
  have e: "segments_of '' \<newline>\<newline>  '' = []"
    using segmentation_engine [of "'' \<newline>\<newline>  ''"] blank by blast
  have l: "lookup [?n] 0 = Some ?n" by (simp add: lookup_def)
  have r: "response ?n = Some ''a\<newline>b''" by simp
  have t: "segment_response (snd (segment_response [?n] 0)) 0 = segment_response [?n] 0"
    using segmentation_engine [of "''a\<newline>b''" "[?n]" 0 ?n] l r by blast
  from c i blank e l r t show ?thesis by blast
qed

section \<open>Segment-scoped children\<close>

lemma lookup_Some: "lookup h a = Some n \<longleftrightarrow> a < length h \<and> h ! a = n"
  by (auto simp: lookup_def)

lemma add_segment_child_out_of_range:
  assumes "lookup h p = Some n" and "response_segments n = Some segs"
    and "\<not> (0 \<le> i \<and> i < int (length segs))"
  shows "add_segment_specific_child h p i m r = (Inl IndexError, h)"
  using assms by (auto simp: add_segment_specific_child_def)

lemma add_segment_child_in_range:
  assumes l: "lookup h p = Some n" and s: "response_segments n = Some segs"
    and i: "0 \<le> i \<and> i < int (length segs)"
  shows "add_segment_specific_child h p i m r =
     (Inr (length h),
      (h @ [new_node\<lparr>message := Some m, response := Some r, parent := Some p\<rparr>])
        [p := n\<lparr>response_segments := Some (segs[nat i :=
            (segs ! nat i)\<lparr>seg_children := seg_children (segs ! nat i) @ [length h]\<rparr>])\<rparr>])"
  using assms by (simp add: add_segment_specific_child_def Let_def)

lemma add_segment_child_effect:
  assumes l: "lookup h p = Some n" and s: "response_segments n = Some segs"
    and i: "0 \<le> i \<and> i < int (length segs)"
  shows "\<exists>h1 n1 segs1.
      add_segment_specific_child h p i m r = (Inr (length h), h1)
      \<and> length h1 = Suc (length h)
      \<and> lookup h1 (length h)
          = Some (new_node\<lparr>message := Some m, response := Some r, parent := Some p\<rparr>)
      \<and> (\<forall>a. a < length h \<and> a \<noteq> p \<longrightarrow> lookup h1 a = lookup h a)
      \<and> lookup h1 p = Some n1
      \<and> n1 = n\<lparr>response_segments := Some segs1\<rparr>
      \<and> length segs1 = length segs
      \<and> segs1 ! nat i = (segs ! nat i)\<lparr>seg_children := seg_children (segs ! nat i) @ [length h]\<rparr>
      \<and> (\<forall>j. j < length segs \<and> j \<noteq> nat i \<longrightarrow> segs1 ! j = segs ! j)"
proof -
  let ?c = "new_node\<lparr>message := Some m, response := Some r, parent := Some p\<rparr>"
  let ?segs1 = "segs[nat i := (segs ! nat i)\<lparr>seg_children := seg_children (segs ! nat i) @ [length h]\<rparr>]"
  let ?n1 = "n\<lparr>response_segments := Some ?segs1\<rparr>"
  let ?h1 = "(h @ [?c])[p := ?n1]"
  have p: "p < length h" using l by (simp add: lookup_Some)
  have k: "nat i < length segs" using i by linarith
  have r: "add_segment_specific_child h p i m r = (Inr (length h), ?h1)"
    using l s i by (rule add_segment_child_in_range)
  have a: "length ?h1 = Suc (length h)" by simp
  have b: "lookup ?h1 (length h) = Some ?c" using p by (simp add: lookup_def)
  have c: "\<forall>a. a < length h \<and> a \<noteq> p \<longrightarrow> lookup ?h1 a = lookup h a"
    by (simp add: lookup_def nth_append)
  have d: "lookup ?h1 p = Some ?n1" using p by (simp add: lookup_def)
  have e: "length ?segs1 = length segs" by simp
  have f: "?segs1 ! nat i = (segs ! nat i)\<lparr>seg_children := seg_children (segs ! nat i) @ [length h]\<rparr>"
    using k by simp
  have g: "\<forall>j. j < length segs \<and> j \<noteq> nat i \<longrightarrow> ?segs1 ! j = segs ! j" by simp
  from r a b c d e f g show ?thesis by blast
qed

lemma tree_add_segment_child_out_of_range:
  assumes "find_node_by_id d h t pid = Inr (Some p)"
    and "lookup h p = Some n" and "response_segments n = Some segs"
    and "\<not> (0 \<le> i \<and> i < int (length segs))"
  shows "tree_add_segment_specific_child d h t pid i m r = (Inr None, h, t)"
  using assms add_segment_child_out_of_range [OF assms(2,3,4), of m r]
  by (simp add: tree_add_segment_specific_child_def)

lemma tree_add_segment_child_in_range:
  assumes "find_node_by_id d h t pid = Inr (Some p)"
    and "lookup h p = Some n" and "response_segments n = Some segs"
    and "0 \<le> i \<and> i < int (length segs)"
  shows "tree_add_segment_specific_child d h t pid i m r =
     (Inr (Some (length h)), snd (add_segment_specific_child h p i m r),
      t\<lparr>node_count := node_count t + 1\<rparr>)"
  using assms add_segment_child_in_range [OF assms(2,3,4), of m r]
  by (simp add: tree_add_segment_specific_child_def)


text \<open>
  On a parent node that has its segments, as the root of \<open>main.py\<close> has after its
  own call of \<open>_segment_response\<close>, \<open>add_segment_specific_child\<close> raises
  \<open>IndexError\<close> exactly when the index is outside \<open>[0, len(segments))\<close>. On that
  failure the store is unchanged (so are the parent's children, segments and segment
  children), and the tree's method returns \<open>None\<close> with the store and the node count
  unchanged. With the index in range the method returns a new node, the only new object,
  whose message and response are the arguments and whose parent is the parent node; the
  node is appended to the children of that segment and nothing else changes; the tree's
  method returns it and counts one node more.
\<close>

lemma add_segment_child:
  assumes "lookup h p = Some n" and "response_segments n = Some segs"
  shows "((fst (add_segment_specific_child h p i m r) = Inl IndexError)
            = (\<not> (0 \<le> i \<and> i < int (length segs))))
     \<and> (\<not> (0 \<le> i \<and> i < int (length segs)) \<longrightarrow>
          add_segment_specific_child h p i m r = (Inl IndexError, h)
          \<and> (find_node_by_id d h t pid = Inr (Some p) \<longrightarrow>
               tree_add_segment_specific_child d h t pid i m r = (Inr None, h, t)))
     \<and> (0 \<le> i \<and> i < int (length segs) \<longrightarrow>
          (\<exists>h1 n1 segs1.
              add_segment_specific_child h p i m r = (Inr (length h), h1)
              \<and> length h1 = Suc (length h)
              \<and> lookup h1 (length h)
                  = Some (new_node\<lparr>message := Some m, response := Some r, parent := Some p\<rparr>)
              \<and> (\<forall>a. a < length h \<and> a \<noteq> p \<longrightarrow> lookup h1 a = lookup h a)
              \<and> lookup h1 p = Some n1
              \<and> n1 = n\<lparr>response_segments := Some segs1\<rparr>
              \<and> length segs1 = length segs
              \<and> segs1 ! nat i
                  = (segs ! nat i)\<lparr>seg_children := seg_children (segs ! nat i) @ [length h]\<rparr>
              \<and> (\<forall>j. j < length segs \<and> j \<noteq> nat i \<longrightarrow> segs1 ! j = segs ! j))
          \<and> (find_node_by_id d h t pid = Inr (Some p) \<longrightarrow>
               tree_add_segment_specific_child d h t pid i m r =
                 (Inr (Some (length h)), snd (add_segment_specific_child h p i m r),
                  t\<lparr>node_count := node_count t + 1\<rparr>)))"
proof (cases "0 \<le> i \<and> i < int (length segs)")
  case True
  have e: "\<exists>h1 n1 segs1.
      add_segment_specific_child h p i m r = (Inr (length h), h1)
      \<and> length h1 = Suc (length h)
      \<and> lookup h1 (length h)
          = Some (new_node\<lparr>message := Some m, response := Some r, parent := Some p\<rparr>)
      \<and> (\<forall>a. a < length h \<and> a \<noteq> p \<longrightarrow> lookup h1 a = lookup h a)
      \<and> lookup h1 p = Some n1
      \<and> n1 = n\<lparr>response_segments := Some segs1\<rparr>
      \<and> length segs1 = length segs
      \<and> segs1 ! nat i
          = (segs ! nat i)\<lparr>seg_children := seg_children (segs ! nat i) @ [length h]\<rparr>
      \<and> (\<forall>j. j < length segs \<and> j \<noteq> nat i \<longrightarrow> segs1 ! j = segs ! j)"
    using assms True by (rule add_segment_child_effect)
  then have f: "fst (add_segment_specific_child h p i m r) \<noteq> Inl IndexError" by auto
  have g: "find_node_by_id d h t pid = Inr (Some p) \<longrightarrow>
      tree_add_segment_specific_child d h t pid i m r =
        (Inr (Some (length h)), snd (add_segment_specific_child h p i m r),
         t\<lparr>node_count := node_count t + 1\<rparr>)"
    using assms True by (simp add: tree_add_segment_child_in_range)
  from True e f g show ?thesis by blast
next
  case False
  have e: "add_segment_specific_child h p i m r = (Inl IndexError, h)"
    using assms False by (rule add_segment_child_out_of_range)
  have g: "find_node_by_id d h t pid = Inr (Some p) \<longrightarrow>
      tree_add_segment_specific_child d h t pid i m r = (Inr None, h, t)"
    using assms False by (simp add: tree_add_segment_child_out_of_range)
  from False e g show ?thesis by simp
qed

lemma add_segment_child_witness:
  "lookup [new_node\<lparr>response_segments :=
              Some [\<lparr>content = ''a'', index = 0, seg_children = []\<rparr>,
                    \<lparr>content = ''b'', index = 1, seg_children = []\<rparr>],
              id_attr := Some ''r''\<rparr>] 0
     = Some (new_node\<lparr>response_segments :=
              Some [\<lparr>content = ''a'', index = 0, seg_children = []\<rparr>,
                    \<lparr>content = ''b'', index = 1, seg_children = []\<rparr>],
              id_attr := Some ''r''\<rparr>)
   \<and> add_segment_specific_child
        [new_node\<lparr>response_segments :=
              Some [\<lparr>content = ''a'', index = 0, seg_children = []\<rparr>,
                    \<lparr>content = ''b'', index = 1, seg_children = []\<rparr>],
              id_attr := Some ''r''\<rparr>] 0 2 ''m'' ''r''
     = (Inl IndexError,
        [new_node\<lparr>response_segments :=
              Some [\<lparr>content = ''a'', index = 0, seg_children = []\<rparr>,
                    \<lparr>content = ''b'', index = 1, seg_children = []\<rparr>],
              id_attr := Some ''r''\<rparr>])
   \<and> fst (add_segment_specific_child
        [new_node\<lparr>response_segments :=
              Some [\<lparr>content = ''a'', index = 0, seg_children = []\<rparr>,
                    \<lparr>content = ''b'', index = 1, seg_children = []\<rparr>],
              id_attr := Some ''r''\<rparr>] 0 1 ''m'' ''r'') = Inr 1
   \<and> find_node_by_id 1
        [new_node\<lparr>response_segments :=
              Some [\<lparr>content = ''a'', index = 0, seg_children = []\<rparr>,
                    \<lparr>content = ''b'', index = 1, seg_children = []\<rparr>],
              id_attr := Some ''r''\<rparr>] \<lparr>root_node = Some 0, node_count = 1\<rparr> ''r'' = Inr (Some 0)
   \<and> tree_add_segment_specific_child 1
        [new_node\<lparr>response_segments :=
              Some [\<lparr>content = ''a'', index = 0, seg_children = []\<rparr>,
                    \<lparr>content = ''b'', index = 1, seg_children = []\<rparr>],
              id_attr := Some ''r''\<rparr>] \<lparr>root_node = Some 0, node_count = 1\<rparr> ''r'' (- 1) ''m'' ''r''
     = (Inr None,
        [new_node\<lparr>response_segments :=
              Some [\<lparr>content = ''a'', index = 0, seg_children = []\<rparr>,
                    \<lparr>content = ''b'', index = 1, seg_children = []\<rparr>],
              id_attr := Some ''r''\<rparr>], \<lparr>root_node = Some 0, node_count = 1\<rparr>)
   \<and> fst (tree_add_segment_specific_child 1
        [new_node\<lparr>response_segments :=
              Some [\<lparr>content = ''a'', index = 0, seg_children = []\<rparr>,
                    \<lparr>content = ''b'', index = 1, seg_children = []\<rparr>],
              id_attr := Some ''r''\<rparr>] \<lparr>root_node = Some 0, node_count = 1\<rparr> ''r'' 1 ''m'' ''r'')
     = Inr (Some 1)"
proof -
  let ?segs = "[\<lparr>content = ''a'', index = 0, seg_children = []\<rparr>,
                \<lparr>content = ''b'', index = 1, seg_children = []\<rparr>]"
  let ?n = "new_node\<lparr>response_segments := Some ?segs, id_attr := Some ''r''\<rparr>"
  let ?t = "\<lparr>root_node = Some 0, node_count = 1\<rparr>"
  have l: "lookup [?n] 0 = Some ?n" by (simp add: lookup_def)
  have s: "response_segments ?n = Some ?segs" by simp
  have f: "find_node_by_id 1 [?n] ?t ''r'' = Inr (Some 0)"
    by (simp add: find_node_by_id_def lookup_def)
  have a: "add_segment_specific_child [?n] 0 2 ''m'' ''r'' = (Inl IndexError, [?n])"
    using add_segment_child [OF l s, of 2 "''m''" "''r''" 1 ?t "''r''"] by simp
  have b: "fst (add_segment_specific_child [?n] 0 1 ''m'' ''r'') = Inr 1"
    using add_segment_child [OF l s, of 1 "''m''" "''r''" 1 ?t "''r''"] by auto
  have c: "tree_add_segment_specific_child 1 [?n] ?t ''r'' (- 1) ''m'' ''r'' = (Inr None, [?n], ?t)"
    using add_segment_child [OF l s, of "- 1" "''m''" "''r''" 1 ?t "''r''"] f by simp
  have d: "fst (tree_add_segment_specific_child 1 [?n] ?t ''r'' 1 ''m'' ''r'') = Inr (Some 1)"
    using add_segment_child [OF l s, of 1 "''m''" "''r''" 1 ?t "''r''"] f by simp
  from l a b f c d show ?thesis by blast
qed

section \<open>Root creation\<close>

lemma parent_inv_update:
  assumes "parent_inv h t" and "a < length h" and "parent n = parent (h ! a)"
  shows "parent_inv (h[a := n]) t"
  using assms by (auto simp: parent_inv_def nth_list_update)

lemma parent_inv_child:
  assumes "parent_inv h t" and "parent n \<noteq> None"
  shows "parent_inv (h @ [n]) t"
  using assms by (auto simp: parent_inv_def nth_append less_Suc_eq)

lemma parent_inv_count: "parent_inv h t \<Longrightarrow> parent_inv h (t\<lparr>node_count := k\<rparr>)"
  by (simp add: parent_inv_def)

lemma parent_inv_create_root_node:
  assumes "parent_inv h t" and "create_root_node h t m r = (res, h1, t1)"
  shows "parent_inv h1 t1"
  using assms
  by (auto simp: create_root_node_def parent_inv_def nth_append less_Suc_eq Let_def new_node_def
      split: if_splits)

lemma parent_inv_segment_response:
  assumes "parent_inv h t" and "segment_response h a = (res, h1)"
  shows "parent_inv h1 t"
  using assms
  by (auto simp: segment_response_def lookup_def Let_def intro!: parent_inv_update
      split: if_splits option.splits)

lemma parent_inv_add_child:
  assumes "parent_inv h t" and "add_child h p m r = (res, h1)"
  shows "parent_inv h1 t"
  using assms
  by (auto simp: add_child_def lookup_def Let_def nth_append
      intro!: parent_inv_update parent_inv_child split: if_splits option.splits)

lemma parent_inv_add_segment_specific_child:
  assumes "parent_inv h t" and "add_segment_specific_child h p i m r = (res, h1)"
  shows "parent_inv h1 t"
  using assms
  by (auto simp: add_segment_specific_child_def lookup_def Let_def nth_append
      intro!: parent_inv_update parent_inv_child split: if_splits option.splits)

lemma parent_inv_add_child_node:
  assumes "parent_inv h t" and "add_child_node d h t pid m r = (res, h1, t1)"
  shows "parent_inv h1 t1"
  using assms
  by (auto simp: add_child_node_def lookup_def Let_def nth_append
      intro!: parent_inv_update parent_inv_child parent_inv_count
      split: if_splits option.splits sum.splits)

lemma parent_inv_tree_add_segment_specific_child:
  assumes "parent_inv h t" and "tree_add_segment_specific_child d h t pid i m r = (res, h1, t1)"
  shows "parent_inv h1 t1"
  using assms
  by (auto simp: tree_add_segment_specific_child_def
      intro!: parent_inv_count dest: parent_inv_add_segment_specific_child
      split: if_splits option.splits sum.splits prod.splits)

lemma reachable_parent_inv: "reachable h t \<Longrightarrow> parent_inv h t"
proof (induction rule: reachable.induct)
  case start
  then show ?case by (simp add: parent_inv_def new_tree_def)
next
  case (by_create_root_node h t m r res h1 t1)
  then show ?case by (blast intro: parent_inv_create_root_node)
next
  case (by_segment_response h t a res0 h1)
  then show ?case by (blast intro: parent_inv_segment_response)
next
  case (by_add_child h t p m r res h1)
  then show ?case by (blast intro: parent_inv_add_child)
next
  case (by_add_segment_specific_child h t p i m r res h1)
  then show ?case by (blast intro: parent_inv_add_segment_specific_child)
next
  case (by_add_child_node h t d pid m r res1 h1 t1)
  then show ?case by (blast intro: parent_inv_add_child_node)
next
  case (by_tree_add_segment_specific_child h t d pid i m r res1 h1 t1)
  then show ?case by (blast intro: parent_inv_tree_add_segment_specific_child)
qed


text \<open>
  C8. On a tree that has a root, \<open>create_root_node\<close> raises \<open>ValueError\<close> and leaves the
  store and the tree as they were. On a tree without a root it puts one new node into the
  store, with the given message and response and no parent, makes it the root, sets the
  node count to 1 and returns it; the objects already in the store are untouched. In every
  state that the methods lead to from a new tree, the root is a node of the store and a
  node has no parent exactly when it is the root: once a root is created, exactly one node
  has no parent.
\<close>

theorem root_creation:
  "(root_node t \<noteq> None \<longrightarrow> create_root_node h t m r = (Inl ValueError, h, t))
   \<and> (root_node t = None \<longrightarrow>
        (\<exists>h1 t1 n.
            create_root_node h t m r = (Inr (length h), h1, t1)
            \<and> h1 = h @ [n]
            \<and> message n = Some m \<and> response n = Some r \<and> parent n = None
            \<and> root_node t1 = Some (length h) \<and> node_count t1 = 1
            \<and> lookup h1 (length h) = Some n
            \<and> (\<forall>a. a < length h \<longrightarrow> lookup h1 a = lookup h a)))
   \<and> (reachable h t \<longrightarrow>
        (\<forall>a. root_node t = Some a \<longrightarrow> a < length h)
        \<and> (\<forall>a. a < length h \<longrightarrow> (parent (h ! a) = None) = (root_node t = Some a)))"
proof -
  have a: "root_node t \<noteq> None \<longrightarrow> create_root_node h t m r = (Inl ValueError, h, t)"
    by (simp add: create_root_node_def)
  have b: "root_node t = None \<longrightarrow>
        (\<exists>h1 t1 n.
            create_root_node h t m r = (Inr (length h), h1, t1)
            \<and> h1 = h @ [n]
            \<and> message n = Some m \<and> response n = Some r \<and> parent n = None
            \<and> root_node t1 = Some (length h) \<and> node_count t1 = 1
            \<and> lookup h1 (length h) = Some n
            \<and> (\<forall>a. a < length h \<longrightarrow> lookup h1 a = lookup h a))"
    by (simp add: create_root_node_def Let_def lookup_def nth_append)
  have c: "reachable h t \<longrightarrow>
        (\<forall>a. root_node t = Some a \<longrightarrow> a < length h)
        \<and> (\<forall>a. a < length h \<longrightarrow> (parent (h ! a) = None) = (root_node t = Some a))"
    using reachable_parent_inv [of h t] by (simp add: parent_inv_def)
  from a b c show ?thesis by blast
qed

theorem root_creation_witness:
  "root_node new_tree = None
   \<and> fst (create_root_node [] new_tree ''m'' ''r'') = Inr 0
   \<and> root_node (new_tree\<lparr>root_node := Some 0, node_count := 1\<rparr>) \<noteq> None
   \<and> create_root_node
        [new_node\<lparr>message := Some ''m'', response := Some ''r'', parent := None\<rparr>]
        (new_tree\<lparr>root_node := Some 0, node_count := 1\<rparr>) ''x'' ''y''
      = (Inl ValueError,
         [new_node\<lparr>message := Some ''m'', response := Some ''r'', parent := None\<rparr>],
         new_tree\<lparr>root_node := Some 0, node_count := 1\<rparr>)
   \<and> reachable
        [new_node\<lparr>message := Some ''m'', response := Some ''r'', parent := None\<rparr>]
        (new_tree\<lparr>root_node := Some 0, node_count := 1\<rparr>)
   \<and> parent ([new_node\<lparr>message := Some ''m'', response := Some ''r'', parent := None\<rparr>] ! 0)
       = None"
proof -
  let ?n = "new_node\<lparr>message := Some ''m'', response := Some ''r'', parent := None\<rparr>"
  let ?t = "new_tree\<lparr>root_node := Some 0, node_count := 1\<rparr>"
  have e: "root_node new_tree = None" by (simp add: new_tree_def)
  have c: "create_root_node [] new_tree ''m'' ''r'' = (Inr 0, [?n], ?t)"
    by (simp add: create_root_node_def new_tree_def)
  have f: "fst (create_root_node [] new_tree ''m'' ''r'') = Inr 0"
    using root_creation [of new_tree "[]" "''m''" "''r''"] e by auto
  have g: "root_node ?t \<noteq> None" by simp
  have h: "create_root_node [?n] ?t ''x'' ''y'' = (Inl ValueError, [?n], ?t)"
    using root_creation [of ?t "[?n]" "''x''" "''y''"] g by blast
  have r: "reachable [?n] ?t"
    using reachable.by_create_root_node [OF reachable.start c] .
  have p: "parent ([?n] ! 0) = None"
    using root_creation [of ?t "[?n]" "''x''" "''y''"] r by simp
  from e f g h r p show ?thesis by blast
qed

section \<open>The code at the inputs where it leaves the specification\<close>

text \<open>
  C1. The claim is not what the method does. The scenario of \<open>main.py\<close> with short texts:
  a root with message "Go on." and response of two lines, segmented, and a child with
  message "Why?" attached to its second segment. In the walk from the child its unit
  "Why?" is classified with the flag true and is a user entry. The root's unit "Go on."
  comes later in the same walk, so the claim wants the flag false for it, which gives
  user; the method reads the role of the first entry of the list only, which is the
  child's assistant entry, passes the flag true again, and the unit becomes a system entry.
\<close>

theorem context_flag_after_user:
  "snd (add_segment_specific_child
          (snd (segment_response
                  [new_node\<lparr>message := Some ''Go on.'', response := Some ''a\<newline>b''\<rparr>] 0))
          0 1 ''Why?'' ''c'')
     = [new_node\<lparr>message := Some ''Go on.'', response := Some ''a\<newline>b'',
          response_segments := Some [\<lparr>content = ''a'', index = 0, seg_children = []\<rparr>,
                                     \<lparr>content = ''b'', index = 1, seg_children = [1]\<rparr>]\<rparr>,
        new_node\<lparr>message := Some ''Why?'', response := Some ''c'', parent := Some 0\<rparr>]
   \<and> get_context
        [new_node\<lparr>message := Some ''Go on.'', response := Some ''a\<newline>b'',
           response_segments := Some [\<lparr>content = ''a'', index = 0, seg_children = []\<rparr>,
                                      \<lparr>content = ''b'', index = 1, seg_children = [1]\<rparr>]\<rparr>,
         new_node\<lparr>message := Some ''Why?'', response := Some ''c'', parent := Some 0\<rparr>] 1
      = Some (Inr [(''system'', ''Go on.''), (''assistant'', ''a\<newline>b''),
                   (''user'', ''Why?''), (''assistant'', ''c'')])
   \<and> is_probable_system_heuristic ''Why?'' True = Inr False
   \<and> is_probable_system_heuristic ''Go on.'' True = Inr True
   \<and> is_probable_system_heuristic ''Go on.'' False = Inr False"
proof -
  have s: "segments_of ''a\<newline>b''
      = [\<lparr>content = ''a'', index = 0, seg_children = []\<rparr>,
         \<lparr>content = ''b'', index = 1, seg_children = []\<rparr>]"
    by code_simp
  have h: "snd (add_segment_specific_child
          (snd (segment_response
                  [new_node\<lparr>message := Some ''Go on.'', response := Some ''a\<newline>b''\<rparr>] 0))
          0 1 ''Why?'' ''c'')
     = [new_node\<lparr>message := Some ''Go on.'', response := Some ''a\<newline>b'',
          response_segments := Some [\<lparr>content = ''a'', index = 0, seg_children = []\<rparr>,
                                     \<lparr>content = ''b'', index = 1, seg_children = [1]\<rparr>]\<rparr>,
        new_node\<lparr>message := Some ''Why?'', response := Some ''c'', parent := Some 0\<rparr>]"
    by (simp add: segment_response_def add_segment_specific_child_def lookup_def new_node_def
        Let_def s)
  have u1: "units_loop (rev (re_split SENTENCE_BREAK ''Why?'')) [(''assistant'', ''c'')]
      = Inr [(''assistant'', ''c''), (''user'', ''Why?'')]"
    by code_simp
  have u2: "units_loop (rev (re_split SENTENCE_BREAK ''Go on.''))
        [(''assistant'', ''c''), (''user'', ''Why?''), (''assistant'', ''a\<newline>b'')]
      = Inr [(''assistant'', ''c''), (''user'', ''Why?''), (''assistant'', ''a\<newline>b''),
             (''system'', ''Go on.'')]"
    by code_simp
  have g: "get_context
        [new_node\<lparr>message := Some ''Go on.'', response := Some ''a\<newline>b'',
           response_segments := Some [\<lparr>content = ''a'', index = 0, seg_children = []\<rparr>,
                                      \<lparr>content = ''b'', index = 1, seg_children = [1]\<rparr>]\<rparr>,
         new_node\<lparr>message := Some ''Why?'', response := Some ''c'', parent := Some 0\<rparr>] 1
      = Some (Inr [(''system'', ''Go on.''), (''assistant'', ''a\<newline>b''),
                   (''user'', ''Why?''), (''assistant'', ''c'')])"
    by (simp add: get_context_def context_loop.simps lookup_def new_node_def u1 u2)
  have c1: "is_probable_system_heuristic ''Why?'' True = Inr False" by code_simp
  have c2: "is_probable_system_heuristic ''Go on.'' True = Inr True" by code_simp
  have c3: "is_probable_system_heuristic ''Go on.'' False = Inr False" by code_simp
  from h g c1 c2 c3 show ?thesis by blast
qed

text \<open>
  C6. The claim is not what the code does. \<open>create_root_node\<close> on a new tree with the
  response of two lines gives a root on which \<open>response_segments\<close> is absent, not the two
  segments of its response: \<open>Node()\<close> runs no initialiser, and \<open>_segment_response\<close> is
  called by \<open>__post_init__\<close> only, which nothing calls. The same holds for the node that
  \<open>add_segment_specific_child\<close> creates.
\<close>

theorem created_nodes_have_no_segments:
  "create_root_node [] new_tree ''q'' ''a\<newline>b''
     = (Inr 0,
        [new_node\<lparr>message := Some ''q'', response := Some ''a\<newline>b'', parent := None\<rparr>],
        new_tree\<lparr>root_node := Some 0, node_count := 1\<rparr>)
   \<and> response_segments
         (new_node\<lparr>message := Some ''q'', response := Some ''a\<newline>b'', parent := None\<rparr>)
       = None
   \<and> segments_of ''a\<newline>b''
       = [\<lparr>content = ''a'', index = 0, seg_children = []\<rparr>,
          \<lparr>content = ''b'', index = 1, seg_children = []\<rparr>]
   \<and> lookup
         (snd (add_segment_specific_child
                 [new_node\<lparr>message := Some ''q'', response := Some ''a\<newline>b'',
                    response_segments := Some (segments_of ''a\<newline>b'')\<rparr>]
                 0 1 ''m'' ''c'')) 1
       = Some (new_node\<lparr>message := Some ''m'', response := Some ''c'', parent := Some 0\<rparr>)
   \<and> response_segments
         (new_node\<lparr>message := Some ''m'', response := Some ''c'', parent := Some 0\<rparr>)
       = None
   \<and> segments_of ''c'' = [\<lparr>content = ''c'', index = 0, seg_children = []\<rparr>]"
proof -
  have s: "segments_of ''a\<newline>b''
      = [\<lparr>content = ''a'', index = 0, seg_children = []\<rparr>,
         \<lparr>content = ''b'', index = 1, seg_children = []\<rparr>]"
    by code_simp
  have s2: "segments_of ''c'' = [\<lparr>content = ''c'', index = 0, seg_children = []\<rparr>]"
    by code_simp
  have c: "create_root_node [] new_tree ''q'' ''a\<newline>b''
     = (Inr 0,
        [new_node\<lparr>message := Some ''q'', response := Some ''a\<newline>b'', parent := None\<rparr>],
        new_tree\<lparr>root_node := Some 0, node_count := 1\<rparr>)"
    by (simp add: create_root_node_def new_tree_def)
  have l: "lookup
         (snd (add_segment_specific_child
                 [new_node\<lparr>message := Some ''q'', response := Some ''a\<newline>b'',
                    response_segments := Some (segments_of ''a\<newline>b'')\<rparr>]
                 0 1 ''m'' ''c'')) 1
       = Some (new_node\<lparr>message := Some ''m'', response := Some ''c'', parent := Some 0\<rparr>)"
    by (simp add: add_segment_specific_child_def lookup_def Let_def s)
  from c s s2 l show ?thesis by (simp add: new_node_def)
qed

text \<open>
  C9. The claim is not what the code does. On the tree that \<open>create_root_node\<close> builds,
  the root has neither \<open>_id\<close> nor \<open>children\<close>: the lookup of any identifier, and the
  listing of the nodes, raise \<open>AttributeError\<close> instead of returning an absent value or
  the nodes. On a store whose nodes were given identifiers and child lists, the root is
  found, but the search and the listing follow \<open>children\<close> only: the node attached to
  the root's segment is not found and not listed.
\<close>

theorem lookup_by_id_fails:
  "find_node_by_id (Suc d)
      [new_node\<lparr>message := Some ''q'', response := Some ''a'', parent := None\<rparr>]
      (new_tree\<lparr>root_node := Some 0, node_count := 1\<rparr>) ''x'' = Inl AttributeError
   \<and> get_all_nodes (Suc d)
      [new_node\<lparr>message := Some ''q'', response := Some ''a'', parent := None\<rparr>]
      (new_tree\<lparr>root_node := Some 0, node_count := 1\<rparr>) = Inl AttributeError
   \<and> find_node_by_id (Suc (Suc d))
      [new_node\<lparr>message := Some ''q'', response := Some ''a'',
         response_segments := Some [\<lparr>content = ''a'', index = 0, seg_children = [1]\<rparr>],
         children := Some [], id_attr := Some ''r''\<rparr>,
       new_node\<lparr>message := Some ''m'', response := Some ''c'', parent := Some 0,
         children := Some [], id_attr := Some ''c''\<rparr>]
      \<lparr>root_node = Some 0, node_count = 2\<rparr> ''r'' = Inr (Some 0)
   \<and> find_node_by_id (Suc (Suc d))
      [new_node\<lparr>message := Some ''q'', response := Some ''a'',
         response_segments := Some [\<lparr>content = ''a'', index = 0, seg_children = [1]\<rparr>],
         children := Some [], id_attr := Some ''r''\<rparr>,
       new_node\<lparr>message := Some ''m'', response := Some ''c'', parent := Some 0,
         children := Some [], id_attr := Some ''c''\<rparr>]
      \<lparr>root_node = Some 0, node_count = 2\<rparr> ''c'' = Inr None
   \<and> get_all_nodes (Suc (Suc d))
      [new_node\<lparr>message := Some ''q'', response := Some ''a'',
         response_segments := Some [\<lparr>content = ''a'', index = 0, seg_children = [1]\<rparr>],
         children := Some [], id_attr := Some ''r''\<rparr>,
       new_node\<lparr>message := Some ''m'', response := Some ''c'', parent := Some 0,
         children := Some [], id_attr := Some ''c''\<rparr>]
      \<lparr>root_node = Some 0, node_count = 2\<rparr> = Inr [0]"
  by (simp add: find_node_by_id_def get_all_nodes_def lookup_def new_node_def new_tree_def)

text \<open>
  C10. The claim is not what the code does. On the tree that \<open>create_root_node\<close> builds,
  \<open>get_conversation_path\<close> with an identifier of no node raises \<open>AttributeError\<close>: the
  search reads \<open>children\<close> of the root, which is absent. It does not return the empty
  list.
\<close>

theorem conversation_path_fails:
  "create_root_node [] new_tree ''q'' ''a''
     = (Inr 0,
        [new_node\<lparr>message := Some ''q'', response := Some ''a'', parent := None\<rparr>],
        new_tree\<lparr>root_node := Some 0, node_count := 1\<rparr>)
   \<and> get_conversation_path (Suc d)
      [new_node\<lparr>message := Some ''q'', response := Some ''a'', parent := None\<rparr>]
      (new_tree\<lparr>root_node := Some 0, node_count := 1\<rparr>) ''x'' = Some (Inl AttributeError)"
  by (simp add: create_root_node_def get_conversation_path_def find_node_by_id_def lookup_def
      new_node_def new_tree_def)

section \<open>The context builder\<close>

lemma heuristic_total: "\<exists>b. is_probable_system_heuristic t flag = Inr b"
  using heuristic_rules by blast

lemma append_unit_first:
  assumes "fst e \<noteq> ''user''"
  shows "append_unit (e # ctx) idx = Inr ((e # ctx) @ [unit_entry idx])"
proof -
  obtain b where b: "is_probable_system_heuristic idx True = Inr b"
    using heuristic_total by blast
  show ?thesis using assms b by (cases b) (simp_all add: append_unit_def unit_entry_def)
qed

lemma units_loop_first:
  assumes "fst e \<noteq> ''user''"
  shows "units_loop us (e # ctx) = Inr ((e # ctx) @ map unit_entry us)"
proof (induction us arbitrary: ctx)
  case Nil
  then show ?case by simp
next
  case (Cons u us)
  have "append_unit (e # ctx) u = Inr (e # (ctx @ [unit_entry u]))"
    using append_unit_first [OF assms, of ctx u] by simp
  then show ?case using Cons.IH [of "ctx @ [unit_entry u]"] by simp
qed

lemma units_loop_after_assistant:
  assumes "head_not_user ctx"
  shows "units_loop us (ctx @ [(''assistant'', r)])
     = Inr (ctx @ (''assistant'', r) # map unit_entry us)"
proof (cases ctx)
  case Nil
  have "fst (''assistant'', r) \<noteq> ''user''" by simp
  then show ?thesis using Nil units_loop_first [of "(''assistant'', r)" us "[]"] by simp
next
  case (Cons e rest)
  then have "fst e \<noteq> ''user''" using assms by (simp add: head_not_user_def)
  then show ?thesis
    using Cons units_loop_first [of e us "rest @ [(''assistant'', r)]"] by simp
qed

lemma head_not_user_append:
  "head_not_user ctx \<Longrightarrow> head_not_user (ctx @ (''assistant'', r) # es)"
  by (cases ctx) (simp_all add: head_not_user_def)

lemma context_loop_step:
  assumes "lookup h a = Some n" and "has_texts n" and "head_not_user ctx"
  shows "context_loop h (Some a) ctx = context_loop h (parent n) (ctx @ collected_block n)"
proof -
  obtain m r where m: "message n = Some m" and r: "response n = Some r"
    using assms(2) by (auto simp: has_texts_def)
  have "units_loop (rev (re_split SENTENCE_BREAK m)) (ctx @ [(''assistant'', r)])
      = Inr (ctx @ collected_block n)"
    using units_loop_after_assistant [OF assms(3)] m r by (simp add: collected_block_def)
  then show ?thesis
    using assms(1) m r by (subst context_loop.simps) simp
qed

lemma context_loop_path:
  assumes "path_to_root h a ns" and "list_all has_texts ns" and "head_not_user ctx"
  shows "context_loop h (Some a) ctx = Some (Inr (ctx @ concat (map collected_block ns)))"
  using assms
proof (induction arbitrary: ctx rule: path_to_root.induct)
  case (at_root h a n)
  then have "context_loop h (Some a) ctx = context_loop h None (ctx @ collected_block n)"
    using context_loop_step [of h a n ctx] by simp
  then show ?case by (simp add: context_loop.simps)
next
  case (above h a n p ns)
  have hn: "head_not_user (ctx @ collected_block n)"
    using above.prems(2) by (simp add: collected_block_def head_not_user_append)
  have "context_loop h (Some a) ctx = context_loop h (Some p) (ctx @ collected_block n)"
    using context_loop_step [of h a n ctx] above by simp
  then show ?case using above.IH [of "ctx @ collected_block n"] above.prems hn by simp
qed

lemma unit_entry_mark: "(fst (unit_entry u) = ''assistant'', snd (unit_entry u)) = (False, u)"
  by (simp add: unit_entry_def)

lemma collected_block_mark:
  "map (\<lambda>e. (fst e = ''assistant'', snd e)) (rev (collected_block n)) = node_block n"
  by (simp add: collected_block_def node_block_def rev_map unit_entry_mark comp_def)

lemma get_context_path:
  assumes "path_to_root h a ns" and "list_all has_texts ns"
  shows "get_context h a = Some (Inr (concat (map (\<lambda>n. rev (collected_block n)) (rev ns))))"
proof -
  have "context_loop h (Some a) [] = Some (Inr (concat (map collected_block ns)))"
    using context_loop_path [OF assms, of "[]"] by (simp add: head_not_user_def)
  then show ?thesis by (simp add: get_context_def rev_concat rev_map comp_def)
qed


lemma seq_one: "rmatch ic (Seq [r]) s = rmatch ic r s"
proof
  fix i
  have c: "concat (map (\<lambda>j. [j]) xs) = xs" for xs :: "nat list"
    by (induction xs) simp_all
  have e: "rmatch ic (Seq []) s = (\<lambda>j. [j])" by (rule ext) simp
  show "rmatch ic (Seq [r]) s i = rmatch ic r s i" by (simp add: e c)
qed

lemma space_class: "in_class (One_of '' '') = (\<lambda>c. c = CHR '' '')"
  by (rule ext) simp

lemma space_run:
  "run_length (One_of '' '') s pos = length (takeWhile (\<lambda>c. c = CHR '' '') (drop pos s))"
  by (simp only: run_length_def space_class)

lemma space_run_pos:
  "0 < length (takeWhile (\<lambda>c. c = CHR '' '') (drop pos s))
     \<longleftrightarrow> pos < length s \<and> s ! pos = CHR '' ''"
proof (cases "pos < length s")
  case True
  then have "drop pos s = s ! pos # drop (Suc pos) s" by (simp add: Cons_nth_drop_Suc)
  then show ?thesis using True by simp
next
  case False
  then show ?thesis by simp
qed

lemma plus_ends:
  "rmatch ic (Plus cl) s pos =
     (if 0 < run_length cl s pos then rev [Suc pos ..< Suc (pos + run_length cl s pos)] else [])"
  by simp

lemma plus_nonempty: "(rmatch ic (Plus cl) s pos \<noteq> []) = (0 < run_length cl s pos)"
  by auto

lemma plus_head:
  "0 < run_length cl s pos \<Longrightarrow> hd (rmatch ic (Plus cl) s pos) = pos + run_length cl s pos"
  by (simp add: hd_rev del: upt_Suc)

lemma sentence_break_ends:
  "rmatch False SENTENCE_BREAK s pos =
     (if 0 < pos \<and> pos \<le> length s \<and> s ! (pos - 1) \<in> set ''.!?''
      then rmatch False (Plus (One_of '' '')) s pos else [])"
proof -
  have "rmatch False SENTENCE_BREAK s pos
      = concat (map (rmatch False (Plus (One_of '' '')) s)
          (rmatch False (Behind (One_of ''.!?'')) s pos))"
    by (simp only: SENTENCE_BREAK_def rmatch.simps(8) seq_one)
  then show ?thesis by (auto simp del: rmatch.simps(6))
qed

lemma sentence_break_match:
  "(rmatch False SENTENCE_BREAK s pos \<noteq> []) =
     (0 < pos \<and> pos < length s \<and> s ! (pos - 1) \<in> set ''.!?'' \<and> s ! pos = CHR '' '')"
proof -
  have "rmatch False (Plus (One_of '' '')) s pos \<noteq> []
      \<longleftrightarrow> pos < length s \<and> s ! pos = CHR '' ''"
    unfolding plus_nonempty space_run by (rule space_run_pos)
  then show ?thesis unfolding sentence_break_ends by auto
qed

lemma sentence_break_greedy:
  assumes "rmatch False SENTENCE_BREAK s pos \<noteq> []"
  shows "hd (rmatch False SENTENCE_BREAK s pos)
     = pos + length (takeWhile (\<lambda>c. c = CHR '' '') (drop pos s))"
proof -
  have e: "rmatch False SENTENCE_BREAK s pos = rmatch False (Plus (One_of '' '')) s pos"
    using assms unfolding sentence_break_ends by (simp split: if_splits)
  then have "rmatch False (Plus (One_of '' '')) s pos \<noteq> []" using assms by simp
  then have "0 < run_length (One_of '' '') s pos"
    unfolding plus_nonempty .
  then have "hd (rmatch False (Plus (One_of '' '')) s pos) = pos + run_length (One_of '' '') s pos"
    by (rule plus_head)
  then show ?thesis unfolding e space_run .
qed

lemma collected_block_mark_forward:
  "map (\<lambda>e. (fst e = ''assistant'', snd e)) (collected_block n)
     = (True, the (response n))
       # map (\<lambda>u. (False, u)) (rev (re_split SENTENCE_BREAK (the (message n))))"
  by (simp add: collected_block_def unit_entry_mark comp_def)

text \<open>
  C2. As stated the claim fails. For one node with message "Go. Why?" and response "c",
  the claim's construction (response, then the units in forward order, the whole reversed)
  ends with the contents "Why?", "Go.", "c"; the method walks the units last first
  (\<open>reversed(line)\<close>) and returns "Go.", "Why?", "c". And the pattern splits behind a
  mark followed by spaces only: a tab after the full stop does not split.
\<close>

theorem context_order_counterexample:
  "get_context [new_node\<lparr>message := Some ''Go. Why?'', response := Some ''c''\<rparr>] 0
     = Some (Inr [(''system'', ''Go.''), (''user'', ''Why?''), (''assistant'', ''c'')])
   \<and> contents_as_stated [new_node\<lparr>message := Some ''Go. Why?'', response := Some ''c''\<rparr>]
       = [''Why?'', ''Go.'', ''c'']
   \<and> re_split SENTENCE_BREAK (''Go.'' @ [CHR 0x09] @ ''Why?'')
       = [''Go.'' @ [CHR 0x09] @ ''Why?'']"
proof -
  have u: "units_loop (rev (re_split SENTENCE_BREAK ''Go. Why?'')) [(''assistant'', ''c'')]
      = Inr [(''assistant'', ''c''), (''user'', ''Why?''), (''system'', ''Go.'')]"
    by code_simp
  have g: "get_context [new_node\<lparr>message := Some ''Go. Why?'', response := Some ''c''\<rparr>] 0
     = Some (Inr [(''system'', ''Go.''), (''user'', ''Why?''), (''assistant'', ''c'')])"
    by (simp add: get_context_def context_loop.simps lookup_def new_node_def u)
  have c: "contents_as_stated [new_node\<lparr>message := Some ''Go. Why?'', response := Some ''c''\<rparr>]
       = [''Why?'', ''Go.'', ''c'']"
    by code_simp
  have t: "re_split SENTENCE_BREAK (''Go.'' @ [CHR 0x09] @ ''Why?'')
       = [''Go.'' @ [CHR 0x09] @ ''Why?'']"
    by code_simp
  from g c t show ?thesis by blast
qed

text \<open>
  C2, amended. For every target node from which the parent links lead to a root, every
  node on the way having a message and a response, \<open>get_context\<close> returns. The walk
  visits the nodes from the target to the root and collects, per node, first one assistant
  entry holding the node's full response, then one entry per unit of the message in
  reverse sentence order (the units are the pieces of the message between the places where
  ".", "!" or "?" is followed by one or more spaces). The returned transcript is the
  collected list reversed: the entries of every ancestor precede those of the target, and
  per node the message-derived entries stand in forward sentence order before the node's
  assistant entry. The pattern that cuts a message into units matches at a position
  exactly when the character before it is one of the three marks and a space stands at
  it, and the match takes all the spaces that follow.
\<close>

theorem context_order:
  assumes "path_to_root h target ns" and "list_all has_texts ns"
  shows "(\<exists>collected.
      context_loop h (Some target) [] = Some (Inr collected)
      \<and> map (\<lambda>e. (fst e = ''assistant'', snd e)) collected
          = concat (map (\<lambda>n. (True, the (response n))
                # map (\<lambda>u. (False, u)) (rev (re_split SENTENCE_BREAK (the (message n))))) ns)
      \<and> get_context h target = Some (Inr (rev collected))
      \<and> map (\<lambda>e. (fst e = ''assistant'', snd e)) (rev collected)
          = concat (map node_block (rev ns)))
    \<and> ((rmatch False SENTENCE_BREAK s pos \<noteq> []) =
         (0 < pos \<and> pos < length s \<and> s ! (pos - 1) \<in> set ''.!?'' \<and> s ! pos = CHR '' ''))
    \<and> (rmatch False SENTENCE_BREAK s pos \<noteq> [] \<longrightarrow>
         hd (rmatch False SENTENCE_BREAK s pos)
           = pos + length (takeWhile (\<lambda>c. c = CHR '' '') (drop pos s)))"
proof -
  let ?c = "concat (map collected_block ns)"
  have a: "context_loop h (Some target) [] = Some (Inr ?c)"
    using context_loop_path [OF assms, of "[]"] by (simp add: head_not_user_def)
  have b: "map (\<lambda>e. (fst e = ''assistant'', snd e)) ?c
      = concat (map (\<lambda>n. (True, the (response n))
            # map (\<lambda>u. (False, u)) (rev (re_split SENTENCE_BREAK (the (message n))))) ns)"
    by (simp add: map_concat comp_def collected_block_mark_forward)
  have c: "get_context h target = Some (Inr (rev ?c))"
    using a by (simp add: get_context_def)
  have d: "map (\<lambda>e. (fst e = ''assistant'', snd e)) (rev ?c) = concat (map node_block (rev ns))"
    by (simp add: rev_concat map_concat rev_map comp_def collected_block_mark)
  from a b c d have e: "\<exists>collected.
      context_loop h (Some target) [] = Some (Inr collected)
      \<and> map (\<lambda>e. (fst e = ''assistant'', snd e)) collected
          = concat (map (\<lambda>n. (True, the (response n))
                # map (\<lambda>u. (False, u)) (rev (re_split SENTENCE_BREAK (the (message n))))) ns)
      \<and> get_context h target = Some (Inr (rev collected))
      \<and> map (\<lambda>e. (fst e = ''assistant'', snd e)) (rev collected)
          = concat (map node_block (rev ns))"
    by blast
  from e sentence_break_match [of s pos] sentence_break_greedy [of s pos]
  show ?thesis by blast
qed

theorem context_order_witness:
  "path_to_root
     [new_node\<lparr>message := Some ''Hi.'', response := Some ''a''\<rparr>,
      new_node\<lparr>message := Some ''Go. Why?'', response := Some ''c'', parent := Some 0\<rparr>] 1
     [new_node\<lparr>message := Some ''Go. Why?'', response := Some ''c'', parent := Some 0\<rparr>,
      new_node\<lparr>message := Some ''Hi.'', response := Some ''a''\<rparr>]
   \<and> list_all has_texts
     [new_node\<lparr>message := Some ''Go. Why?'', response := Some ''c'', parent := Some 0\<rparr>,
      new_node\<lparr>message := Some ''Hi.'', response := Some ''a''\<rparr>]
   \<and> (\<exists>entries.
        get_context
          [new_node\<lparr>message := Some ''Hi.'', response := Some ''a''\<rparr>,
           new_node\<lparr>message := Some ''Go. Why?'', response := Some ''c'', parent := Some 0\<rparr>] 1
          = Some (Inr entries)
        \<and> map (\<lambda>e. (fst e = ''assistant'', snd e)) entries
            = [(False, ''Hi.''), (True, ''a''), (False, ''Go.''), (False, ''Why?''), (True, ''c'')])
   \<and> rmatch False SENTENCE_BREAK ''Go.  Why?'' 3 \<noteq> []
   \<and> hd (rmatch False SENTENCE_BREAK ''Go.  Why?'' 3) = 5"
proof -
  let ?r = "new_node\<lparr>message := Some ''Hi.'', response := Some ''a''\<rparr>"
  let ?c = "new_node\<lparr>message := Some ''Go. Why?'', response := Some ''c'', parent := Some 0\<rparr>"
  have pr: "path_to_root [?r, ?c] 0 [?r]"
    by (rule path_to_root.at_root) (simp_all add: lookup_def new_node_def)
  have p: "path_to_root [?r, ?c] 1 [?c, ?r]"
    by (rule path_to_root.above [OF _ _ pr]) (simp_all add: lookup_def)
  have t: "list_all has_texts [?c, ?r]" by (simp add: has_texts_def)
  have b1: "node_block ?r = [(False, ''Hi.''), (True, ''a'')]" by code_simp
  have b2: "node_block ?c = [(False, ''Go.''), (False, ''Why?''), (True, ''c'')]" by code_simp
  have g: "\<exists>entries. get_context [?r, ?c] 1 = Some (Inr entries)
        \<and> map (\<lambda>e. (fst e = ''assistant'', snd e)) entries
            = [(False, ''Hi.''), (True, ''a''), (False, ''Go.''), (False, ''Why?''), (True, ''c'')]"
    using context_order [OF p t, of "[]" 0] b1 b2 by auto
  have m: "rmatch False SENTENCE_BREAK ''Go.  Why?'' 3 \<noteq> []"
    using context_order [OF p t, of "''Go.  Why?''" 3] by simp
  have k: "hd (rmatch False SENTENCE_BREAK ''Go.  Why?'' 3) = 5"
    using context_order [OF p t, of "''Go.  Why?''" 3] m by simp
  from p t g m k show ?thesis by blast
qed

section \<open>Segment-scoped children on the nodes the methods build\<close>

text \<open>Texts with characters beyond ASCII: a letter of the upper half is a word character,
  so no word boundary follows "never" before it; the no-break space is trimmed; a line
  that holds a no-break space only is blank.\<close>

lemma beyond_ascii_examples:
  "is_probable_system_heuristic (''never'' @ [CHR 0xE9] @ ''?'') False = Inr False"
  "is_probable_system_heuristic ([CHR 0xA0] @ ''always be nice?'') False = Inr True"
  "is_probable_system_heuristic [CHR 0xA0, CHR 0x85] False = Inr False"
  "map content (segments_of (''a'' @ [CHR 0x0A, CHR 0xA0, CHR 0x0A] @ ''b'')) = [''a'', ''b'']"
  by code_simp+

text \<open>
  C7. The claim is not what the code does. On the root that \<open>create_root_node\<close> builds
  from a response of two lines, \<open>response_segments\<close> is absent, so
  \<open>add_segment_specific_child\<close> raises \<open>AttributeError\<close> at \<open>len(self.response_segments)\<close>
  whatever the index: for index 0, which lies inside the two segments of the response and
  for which the claim wants a new node, and for index 7, for which the claim wants
  \<open>IndexError\<close>. The store is left as it was. The tree's method raises
  \<open>AttributeError\<close> as well, in the search for the parent.
\<close>

theorem segment_child_without_segments:
  "create_root_node [] new_tree ''q'' ''a\<newline>b''
     = (Inr 0,
        [new_node\<lparr>message := Some ''q'', response := Some ''a\<newline>b'', parent := None\<rparr>],
        new_tree\<lparr>root_node := Some 0, node_count := 1\<rparr>)
   \<and> length (segments_of ''a\<newline>b'') = 2
   \<and> add_segment_specific_child
        [new_node\<lparr>message := Some ''q'', response := Some ''a\<newline>b'', parent := None\<rparr>]
        0 0 ''m'' ''r''
      = (Inl AttributeError,
         [new_node\<lparr>message := Some ''q'', response := Some ''a\<newline>b'', parent := None\<rparr>])
   \<and> add_segment_specific_child
        [new_node\<lparr>message := Some ''q'', response := Some ''a\<newline>b'', parent := None\<rparr>]
        0 7 ''m'' ''r''
      = (Inl AttributeError,
         [new_node\<lparr>message := Some ''q'', response := Some ''a\<newline>b'', parent := None\<rparr>])
   \<and> tree_add_segment_specific_child (Suc d)
        [new_node\<lparr>message := Some ''q'', response := Some ''a\<newline>b'', parent := None\<rparr>]
        (new_tree\<lparr>root_node := Some 0, node_count := 1\<rparr>) ''x'' 0 ''m'' ''r''
      = (Inl AttributeError,
         [new_node\<lparr>message := Some ''q'', response := Some ''a\<newline>b'', parent := None\<rparr>],
         new_tree\<lparr>root_node := Some 0, node_count := 1\<rparr>)"
proof -
  have s: "length (segments_of ''a\<newline>b'') = 2" by code_simp
  have c: "create_root_node [] new_tree ''q'' ''a\<newline>b''
     = (Inr 0,
        [new_node\<lparr>message := Some ''q'', response := Some ''a\<newline>b'', parent := None\<rparr>],
        new_tree\<lparr>root_node := Some 0, node_count := 1\<rparr>)"
    by (simp add: create_root_node_def new_tree_def)
  show ?thesis
    unfolding c
    by (simp add: s add_segment_specific_child_def tree_add_segment_specific_child_def
        find_node_by_id_def lookup_def new_node_def new_tree_def)
qed

text \<open>In every state that the methods lead to from a new tree no node has an identifier
  or a list of children, so the tree's search returns no node, whatever the identifier.\<close>

lemma bare_inv_steps:
  "bare_inv h \<Longrightarrow> create_root_node h t m r = (res, h1, t1) \<Longrightarrow> bare_inv h1"
  "bare_inv h \<Longrightarrow> segment_response h a = (res0, h1) \<Longrightarrow> bare_inv h1"
  "bare_inv h \<Longrightarrow> add_child h p m r = (res, h1) \<Longrightarrow> bare_inv h1"
  "bare_inv h \<Longrightarrow> add_segment_specific_child h p i m r = (res, h1) \<Longrightarrow> bare_inv h1"
  by (auto simp: bare_inv_def create_root_node_def segment_response_def add_child_def
      add_segment_specific_child_def lookup_def Let_def new_node_def list_all_iff
      dest!: set_update_subset_insert [THEN subsetD]
      split: if_splits option.splits)


lemma bare_find: "bare_inv h \<Longrightarrow> find_node_by_id d h t pid \<noteq> Inr (Some p)"
proof (cases "root_node t")
  case None
  then show ?thesis by (simp add: find_node_by_id_def)
next
  case (Some a)
  assume b: "bare_inv h"
  show ?thesis
  proof (cases d)
    case 0
    then show ?thesis using Some by (simp add: find_node_by_id_def)
  next
    case (Suc k)
    show ?thesis
    proof (cases "a < length h")
      case True
      then have "id_attr (h ! a) = None \<and> children (h ! a) = None"
        using b by (simp add: bare_inv_def list_all_length)
      then show ?thesis using Some Suc True by (simp add: find_node_by_id_def lookup_def)
    next
      case False
      then show ?thesis using Some Suc by (simp add: find_node_by_id_def lookup_def)
    qed
  qed
qed

lemma bare_inv_add_child_node:
  assumes "bare_inv h" and "add_child_node d h t pid m r = (res, h1, t1)"
  shows "bare_inv h1"
proof (cases "find_node_by_id d h t pid")
  case (Inl e)
  then show ?thesis using assms by (simp add: add_child_node_def)
next
  case (Inr found)
  then have "found = None" using bare_find [OF assms(1), of d t pid] by (cases found) auto
  then show ?thesis using assms Inr by (simp add: add_child_node_def)
qed

lemma bare_inv_tree_add_segment_specific_child:
  assumes "bare_inv h" and "tree_add_segment_specific_child d h t pid i m r = (res, h1, t1)"
  shows "bare_inv h1"
proof (cases "find_node_by_id d h t pid")
  case (Inl e)
  then show ?thesis using assms by (simp add: tree_add_segment_specific_child_def)
next
  case (Inr found)
  then have "found = None" using bare_find [OF assms(1), of d t pid] by (cases found) auto
  then show ?thesis using assms Inr by (simp add: tree_add_segment_specific_child_def)
qed

lemma reachable_bare_inv: "reachable h t \<Longrightarrow> bare_inv h"
proof (induction rule: reachable.induct)
  case start
  then show ?case by (simp add: bare_inv_def)
next
  case (by_create_root_node h t m r res h1 t1)
  then show ?case by (blast intro: bare_inv_steps(1))
next
  case (by_segment_response h t a res0 h1)
  then show ?case by (blast intro: bare_inv_steps(2))
next
  case (by_add_child h t p m r res h1)
  then show ?case by (blast intro: bare_inv_steps(3))
next
  case (by_add_segment_specific_child h t p i m r res h1)
  then show ?case by (blast intro: bare_inv_steps(4))
next
  case (by_add_child_node h t d pid m r res1 h1 t1)
  then show ?case by (blast intro: bare_inv_add_child_node)
next
  case (by_tree_add_segment_specific_child h t d pid i m r res1 h1 t1)
  then show ?case by (blast intro: bare_inv_tree_add_segment_specific_child)
qed

lemma reachable_lookup_finds_nothing:
  "reachable h t \<Longrightarrow> find_node_by_id d h t pid \<noteq> Inr (Some p)"
  using bare_find [OF reachable_bare_inv] by blast

end
